theory Spec2Isabelle
  imports Complex_Main "HOL-Library.Sublist"
begin

section \<open>JavaScript values the code relies on\<close>

text \<open>
  Strings are character lists. Node references are natural numbers (addresses in the
  element store); \<open>null\<close> is \<open>None\<close>. The only exception the modelled code can raise is
  a \<open>TypeError\<close> (a property read on \<open>null\<close>, or \<open>new URL\<close> on an invalid input).
\<close>

datatype js_error = TypeError

text \<open>\<open>Array.prototype.join\<close>.\<close>

fun join :: "string \<Rightarrow> string list \<Rightarrow> string" where
  "join sep [] = []"
| "join sep [x] = x"
| "join sep (x # y # ys) = x @ sep @ join sep (y # ys)"

text \<open>\<open>String.prototype.includes\<close>: \<open>str_includes s w\<close> holds when \<open>w\<close> occurs in \<open>s\<close>.\<close>

fun str_includes :: "string \<Rightarrow> string \<Rightarrow> bool" where
  "str_includes [] w = (w = [])"
| "str_includes (c # cs) w = (prefix w (c # cs) \<or> str_includes cs w)"

text \<open>\<open>String.prototype.toLowerCase\<close>, on ASCII letters.\<close>

definition lowerChar :: "char \<Rightarrow> char" where
  "lowerChar c =
     (if (65::nat) \<le> of_char c \<and> of_char c \<le> (90::nat)
      then char_of (of_char c + (32::nat)) else c)"

definition toLowerCase :: "string \<Rightarrow> string" where
  "toLowerCase s = map lowerChar s"

section \<open>The DOM as the traversal reads it\<close>

text \<open>
  The snapshot \<open>window.getComputedStyle\<close> returns for an element, with the three
  properties the traversal reads. It is taken as a property of the element: the
  generated class names are assumed to select no rule of the page.
\<close>

record computed_style =
  display :: string
  flexDirection :: string
  backgroundColor :: string

text \<open>
  \<open>parentNode\<close> is the document itself (for the root element), another element, or
  \<open>null\<close> for a detached node. \<open>isSVGElement\<close> holds for the elements of the SVG
  namespace (\<open>svg\<close>, \<open>g\<close>, \<open>foreignObject\<close>, ...): their \<open>className\<close> is an
  \<open>SVGAnimatedString\<close> object, not a string, and they have no \<open>offsetHeight\<close>.
\<close>

datatype parent_ref = Document | Element nat

record element =
  tagName :: string
  isSVGElement :: bool
  classList :: "string list"
  elemId :: string
  attributes :: "(string \<times> string) list"
  parentNode :: "parent_ref option"
  offsetHeight :: nat
  computedStyle :: computed_style
  textContent :: string

text \<open>
  The element store. A node reference is an index into it; an element that is removed
  from the document stays in the store, detached. The order of the store stands for
  document order.
\<close>

type_synonym dom = "element list"

definition getElement :: "dom \<Rightarrow> nat \<Rightarrow> element option" where
  "getElement d n = (if n < length d then Some (d ! n) else None)"

definition parentElement :: "element \<Rightarrow> nat option" where
  "parentElement e = (case parentNode e of Some (Element p) \<Rightarrow> Some p | _ \<Rightarrow> None)"

text \<open>
  \<open>ancestorWithin k d a n\<close>: following \<open>parentNode\<close> from \<open>n\<close> reaches \<open>a\<close> in at least one
  and at most \<open>k\<close> steps. A parent chain of a tree with \<open>length d\<close> elements has at most
  \<open>length d\<close> links.
\<close>

fun ancestorWithin :: "nat \<Rightarrow> dom \<Rightarrow> parent_ref \<Rightarrow> nat \<Rightarrow> bool" where
  "ancestorWithin 0 d a n = False"
| "ancestorWithin (Suc k) d a n =
     (case getElement d n of
        None \<Rightarrow> False
      | Some e \<Rightarrow>
          (case parentNode e of
             None \<Rightarrow> False
           | Some p \<Rightarrow> p = a \<or> (case p of Document \<Rightarrow> False | Element m \<Rightarrow> ancestorWithin k d a m)))"

text \<open>\<open>node.isConnected\<close>: the node is in the document.\<close>

definition isConnected :: "dom \<Rightarrow> nat \<Rightarrow> bool" where
  "isConnected d n = ancestorWithin (length d) d Document n"

text \<open>\<open>n\<close> is a descendant of the element \<open>a\<close> (and not \<open>a\<close> itself).\<close>

definition isDescendant :: "dom \<Rightarrow> nat \<Rightarrow> nat \<Rightarrow> bool" where
  "isDescendant d a n = ancestorWithin (length d) d (Element a) n"

text \<open>\<open>document.documentElement\<close> and \<open>document.body\<close>.\<close>

definition documentElement :: "dom \<Rightarrow> nat option" where
  "documentElement d =
     List.find (\<lambda>n. parentNode (d ! n) = Some Document) [0..<length d]"

definition body :: "dom \<Rightarrow> nat option" where
  "body d =
     (case documentElement d of
        None \<Rightarrow> None
      | Some r \<Rightarrow>
          List.find (\<lambda>n. parentNode (d ! n) = Some (Element r)
                          \<and> (tagName (d ! n) = ''BODY'' \<or> tagName (d ! n) = ''FRAMESET''))
                    [0..<length d])"

text \<open>
  The selectors the code passes to \<open>querySelectorAll\<close> are lists of type selectors
  (\<open>p, font, pre\<close>) or of class selectors (\<open>.lindy-font-size, ...\<close>).
\<close>

datatype simple_selector = TypeSel string | ClassSel string

fun matches :: "element \<Rightarrow> simple_selector \<Rightarrow> bool" where
  "matches e (TypeSel t) = (toLowerCase (tagName e) = toLowerCase t)"
| "matches e (ClassSel c) = (c \<in> set (classList e))"

text \<open>\<open>element.querySelectorAll\<close>: the matching descendants, in document order.\<close>

definition querySelectorAll :: "dom \<Rightarrow> nat \<Rightarrow> simple_selector list \<Rightarrow> nat list" where
  "querySelectorAll d scope sel =
     filter (\<lambda>n. isDescendant d scope n \<and> list_ex (matches (d ! n)) sel) [0..<length d]"

text \<open>\<open>document.querySelectorAll\<close>: the matching elements of the document.\<close>

definition document_querySelectorAll :: "dom \<Rightarrow> simple_selector list \<Rightarrow> nat list" where
  "document_querySelectorAll d sel =
     filter (\<lambda>n. isConnected d n \<and> list_ex (matches (d ! n)) sel) [0..<length d]"

text \<open>\<open>element.remove()\<close> detaches the element from its parent.\<close>

definition remove :: "dom \<Rightarrow> nat \<Rightarrow> dom" where
  "remove d n = (if n < length d then d[n := (d ! n)\<lparr>parentNode := None\<rparr>] else d)"

text \<open>
  \<open>element.className\<close> of an HTML element is the class attribute; the tokens of
  \<open>classList\<close> separated by a space. \<open>classList.add\<close> adds a token that is not there yet.
\<close>

definition className :: "element \<Rightarrow> string" where
  "className e = join '' '' (classList e)"

text \<open>
  \<open>node.className.toLowerCase()\<close>. On an SVG element \<open>node.className\<close> is an object
  without a \<open>toLowerCase\<close> method, and the call throws a \<open>TypeError\<close>.
\<close>

definition className_toLowerCase :: "element \<Rightarrow> js_error + string" where
  "className_toLowerCase node =
     (if isSVGElement node then Inl TypeError else Inr (toLowerCase (className node)))"

definition classList_add :: "string list \<Rightarrow> string \<Rightarrow> string list" where
  "classList_add cl c = (if c \<in> set cl then cl else cl @ [c])"

definition hasAttribute :: "element \<Rightarrow> string \<Rightarrow> bool" where
  "hasAttribute e a = (a \<in> fst ` set (attributes e))"

section \<open>Node Classifier\<close>

definition asideWordBlocklist :: "string list" where
  "asideWordBlocklist =
     [''header'', ''footer'', ''aside'', ''sidebar'', ''comment'', ''language'']"

text \<open>
  \<open>asideWordBlocklist.some(callback)\<close>: the callback is run on one word after the other
  until it returns \<open>true\<close>; it reads \<open>node.className.toLowerCase()\<close> first.
\<close>

fun someBlocklisted :: "element \<Rightarrow> string list \<Rightarrow> js_error + bool" where
  "someBlocklisted node [] = Inr False"
| "someBlocklisted node (word # ws) =
     (case className_toLowerCase node of
        Inl err \<Rightarrow> Inl err
      | Inr lowerClassName \<Rightarrow>
          if str_includes lowerClassName word \<or> str_includes (toLowerCase (elemId node)) word
          then Inr True
          else someBlocklisted node ws)"

text \<open>
  \<open>_isAsideEquivalent(node)\<close>. The operands of \<open>||\<close> are evaluated from left to right, and
  only until one of them is \<open>true\<close>.
\<close>

definition isAsideEquivalent :: "element \<Rightarrow> js_error + bool" where
  "isAsideEquivalent node =
     (if tagName node = ''HEADER'' \<or> tagName node = ''FOOTER'' \<or> tagName node = ''ASIDE''
         \<or> tagName node = ''CODE''
      then Inr True
      else (case someBlocklisted node asideWordBlocklist of
              Inl err \<Rightarrow> Inl err
            | Inr blocklisted \<Rightarrow>
                if blocklisted then Inr True
                else Inr (hasAttribute node ''data-language'')))"

section \<open>Selector Synthesizer\<close>

text \<open>
  The state of one call of \<open>iterateDOM\<close>: the document, which \<open>_getNodeSelector\<close>
  changes, the number of \<open>Math.random()\<close> values drawn so far, and the four
  collections of the closure. \<open>seenNodes\<close> is a \<open>Set\<close>; it is kept in insertion order.
\<close>

record traversal =
  document :: dom
  draws :: nat
  containerSelectors :: "string list"
  overrideCssDeclarations :: "string list"
  backgroundColors :: "string list"
  seenNodes :: "nat list"

definition apostrophe :: char where
  "apostrophe = CHR 0x27"

text \<open>
  \<open>_getNodeSelector(node)\<close>. \<open>rnd k\<close> is the text
  \<open>Math.random().toString().slice(2)\<close> of the \<open>k\<close>-th draw. A reference to no element
  of the store is read like \<open>null\<close>.
\<close>

definition getNodeSelector ::
  "(nat \<Rightarrow> string) \<Rightarrow> traversal \<Rightarrow> nat \<Rightarrow> js_error + (string \<times> traversal)" where
  "getNodeSelector rnd st node =
     (case getElement (document st) node of
        None \<Rightarrow> Inl TypeError
      | Some e \<Rightarrow>
          (let containerId = ''container_'' @ rnd (draws st);
               e' = e\<lparr>classList := classList_add (classList e) containerId\<rparr>;
               classNames = map (\<lambda>c. ''.'' @ c) [containerId];
               completeSelector =
                 toLowerCase (tagName e') @ join [] classNames
                 @ (if elemId e' \<noteq> [] then ''[id='' @ [apostrophe] @ elemId e' @ [apostrophe] @ '']''
                    else [])
           in Inr (completeSelector,
                   st\<lparr>document := (document st)[node := e'], draws := Suc (draws st)\<rparr>)))"

section \<open>Override Rule Generator\<close>

definition newline :: string where
  "newline = [CHR 0x0A]"

text \<open>
  \<open>_getNodeOverrideStyles(node, currentSelector, activeStyle)\<close>. The node itself is not
  read. The grid rule is the template literal of the source, line breaks and
  indentation included.
\<close>

definition getNodeOverrideStyles :: "string \<Rightarrow> computed_style \<Rightarrow> string list" where
  "getNodeOverrideStyles currentSelector activeStyle =
     (if display activeStyle = ''flex'' \<and> flexDirection activeStyle = ''row''
      then [currentSelector @ '' { display: block; }''] else [])
     @
     (if display activeStyle = ''grid''
      then [currentSelector @ '' {'' @ newline
            @ ''            display: block;'' @ newline
            @ ''            grid-template-columns: 1fr;'' @ newline
            @ ''            grid-template-areas: none;'' @ newline
            @ ''            column-gap: 0;'' @ newline
            @ ''        }'']
      else [])"

section \<open>Ancestor Walker\<close>

text \<open>\<open>Set.prototype.add\<close> on the insertion-ordered list of members.\<close>

definition set_add :: "nat list \<Rightarrow> nat \<Rightarrow> nat list" where
  "set_add s n = (if n \<in> set s then s else s @ [n])"

text \<open>
  The body of the \<open>while\<close> loop of \<open>iterateParents\<close> from the call of
  \<open>_getNodeSelector\<close> to the collection of the background color. \<open>e\<close> is the element
  \<open>currentElem\<close> refers to.
\<close>

definition processContainer ::
  "(nat \<Rightarrow> string) \<Rightarrow> traversal \<Rightarrow> nat \<Rightarrow> element \<Rightarrow> js_error + traversal" where
  "processContainer rnd st currentElem e =
     (case getNodeSelector rnd st currentElem of
        Inl err \<Rightarrow> Inl err
      | Inr (currentSelector, st1) \<Rightarrow>
          (let st2 = st1\<lparr>containerSelectors := containerSelectors st1 @ [currentSelector]\<rparr>;
               activeStyle = computedStyle e;
               st3 = st2\<lparr>overrideCssDeclarations :=
                          overrideCssDeclarations st2
                          @ getNodeOverrideStyles currentSelector activeStyle\<rparr>
           in Inr (if \<not> str_includes (backgroundColor activeStyle) ''rgba(0, 0, 0, 0)''
                   then st3\<lparr>backgroundColors := backgroundColors st3 @ [backgroundColor activeStyle]\<rparr>
                   else st3)))"

lemma getNodeSelector_frame:
  "getNodeSelector rnd st n = Inr (sel, st') \<Longrightarrow>
     length (document st') = length (document st) \<and> seenNodes st' = seenNodes st"
  by (auto simp: getNodeSelector_def Let_def split: option.splits)

lemma processContainer_frame:
  "processContainer rnd st n e = Inr st' \<Longrightarrow>
     length (document st') = length (document st) \<and> seenNodes st' = seenNodes st"
  by (auto simp: processContainer_def Let_def split: sum.splits if_splits dest: getNodeSelector_frame)

text \<open>The number of elements of the store that are not in \<open>seenNodes\<close>.\<close>

definition unseen :: "traversal \<Rightarrow> nat" where
  "unseen st = length (document st) - card (set (seenNodes st) \<inter> {..<length (document st)})"

lemma unseen_decreases:
  assumes e: "getElement (document st) currentElem = Some e"
    and ns: "currentElem \<notin> set (seenNodes st)"
    and p: "processContainer rnd (st\<lparr>seenNodes := set_add (seenNodes st) currentElem\<rparr>)
              currentElem e = Inr st2"
  shows "unseen st2 < unseen st"
proof -
  let ?n = "length (document st)"
  let ?S = "set (seenNodes st) \<inter> {..<?n}"
  from e have lt: "currentElem < ?n"
    by (simp add: getElement_def split: if_splits)
  from processContainer_frame [OF p]
  have fr: "length (document st2) = ?n" "seenNodes st2 = set_add (seenNodes st) currentElem"
    by simp_all
  have eq: "set (seenNodes st2) \<inter> {..<?n} = insert currentElem ?S"
    using lt fr(2) by (auto simp: set_add_def)
  have "currentElem \<notin> ?S" using ns by simp
  then have c: "card (insert currentElem ?S) = Suc (card ?S)" by simp
  have "insert currentElem ?S \<subseteq> {..<?n}" using lt by auto
  then have "card (insert currentElem ?S) \<le> ?n"
    using card_mono [of "{..<?n}" "insert currentElem ?S"] by simp
  with c show ?thesis using fr(1) eq by (simp add: unseen_def)
qed

text \<open>
  The \<open>while\<close> loop of \<open>iterateParents\<close>. \<open>document.body\<close> is read at every test of the
  loop condition. With \<open>currentElem = null\<close> the loop body throws at
  \<open>_isAsideEquivalent(null)\<close>; an exception of \<open>_isAsideEquivalent\<close> leaves the loop and
  the traversal. Every turn of the loop adds an element of the store to \<open>seenNodes\<close>
  that was not in it, which bounds the number of turns.
\<close>

function walkUp :: "(nat \<Rightarrow> string) \<Rightarrow> traversal \<Rightarrow> nat option \<Rightarrow> js_error + traversal" where
  "walkUp rnd st None = (if body (document st) = None then Inr st else Inl TypeError)"
| "walkUp rnd st (Some currentElem) =
     (if Some currentElem = body (document st) then Inr st
      else if currentElem \<in> set (seenNodes st) then Inr st
      else (case getElement (document st) currentElem of
              None \<Rightarrow> Inl TypeError
            | Some e \<Rightarrow>
                (let st1 = st\<lparr>seenNodes := set_add (seenNodes st) currentElem\<rparr>
                 in case isAsideEquivalent e of
                      Inl err \<Rightarrow> Inl err
                    | Inr aside \<Rightarrow>
                        if aside then Inr st1
                        else (case processContainer rnd st1 currentElem e of
                                Inl err \<Rightarrow> Inl err
                              | Inr st2 \<Rightarrow> walkUp rnd st2 (parentElement e)))))"
  by pat_completeness auto
termination
proof (relation "measure (\<lambda>(rnd, st, cur). unseen st)")
  show "wf (measure (\<lambda>(rnd, st, cur). unseen st))" by simp
next
  fix rnd st currentElem e st1 aside st2
  assume "currentElem \<notin> set (seenNodes st)" "getElement (document st) currentElem = Some e"
    "st1 = st\<lparr>seenNodes := set_add (seenNodes st) currentElem\<rparr>"
    "processContainer rnd st1 currentElem e = Inr st2"
  then have "unseen st2 < unseen st"
    using unseen_decreases [of st currentElem e rnd st2] by simp
  then show "((rnd, st2, parentElement e), (rnd, st, Some currentElem))
              \<in> measure (\<lambda>(rnd, st, cur). unseen st)"
    by simp
qed

declare walkUp.simps [simp del]

text \<open>
  \<open>iterateParents(elem)\<close>. With \<open>elem = null\<close>, \<open>_getNodeSelector(null)\<close> throws.
\<close>

definition iterateParents ::
  "(nat \<Rightarrow> string) \<Rightarrow> traversal \<Rightarrow> nat option \<Rightarrow> js_error + traversal" where
  "iterateParents rnd st elem =
     (case elem of
        None \<Rightarrow> Inl TypeError
      | Some n \<Rightarrow>
          (if n \<notin> set (seenNodes st)
           then (case getNodeSelector rnd st n of
                   Inl err \<Rightarrow> Inl err
                 | Inr (currentSelector, st1) \<Rightarrow>
                     walkUp rnd
                       (st1\<lparr>containerSelectors := containerSelectors st1 @ [currentSelector @ '' > p'']\<rparr>)
                       (Some n))
           else walkUp rnd st (Some n)))"

definition globalParagraphSelector :: "simple_selector list" where
  "globalParagraphSelector = [TypeSel ''p'', TypeSel ''font'', TypeSel ''pre'']"

text \<open>
  \<open>!paragraphs\<close> on the \<open>NodeList\<close> that \<open>querySelectorAll\<close> returns: a \<open>NodeList\<close> is an
  object, and \<open>!\<close> of an object is \<open>false\<close>, whether the list is empty or not.
\<close>

definition not_NodeList :: "nat list \<Rightarrow> bool" where
  "not_NodeList paragraphs = False"

text \<open>
  The callback of \<open>paragraphs.forEach\<close>, over the static list of the query. The
  \<open>offsetHeight\<close> of an SVG element is \<open>undefined\<close>, which is not \<open>0\<close>.
\<close>

fun forEachParagraph ::
  "(nat \<Rightarrow> string) \<Rightarrow> traversal \<Rightarrow> nat list \<Rightarrow> js_error + traversal" where
  "forEachParagraph rnd st [] = Inr st"
| "forEachParagraph rnd st (elem # rest) =
     (case getElement (document st) elem of
        None \<Rightarrow> Inl TypeError
      | Some e \<Rightarrow>
          if \<not> isSVGElement e \<and> offsetHeight e = 0 then forEachParagraph rnd st rest
          else (case iterateParents rnd st (parentElement e) of
                  Inl err \<Rightarrow> Inl err
                | Inr st' \<Rightarrow> forEachParagraph rnd st' rest))"

text \<open>
  \<open>iterateDOM()\<close>, up to the traversal: the result is the state the two returned closures
  \<open>fadeOut\<close> and \<open>pageViewTransition\<close> read. With no \<open>document.body\<close> the first line throws.
\<close>

definition iterateDOM :: "(nat \<Rightarrow> string) \<Rightarrow> dom \<Rightarrow> js_error + traversal" where
  "iterateDOM rnd d =
     (case body d of
        None \<Rightarrow> Inl TypeError
      | Some b \<Rightarrow>
          (let paragraphs = querySelectorAll d b globalParagraphSelector;
               paragraphs = (if not_NodeList paragraphs
                             then querySelectorAll d b [TypeSel ''div'', TypeSel ''span'']
                             else paragraphs)
           in forEachParagraph rnd
                \<lparr>document = d, draws = 0, containerSelectors = [], overrideCssDeclarations = [],
                 backgroundColors = [], seenNodes = []\<rparr>
                paragraphs))"

text \<open>
  \<open>_getTextElementChainOverrideStyle(containerSelectors)\<close>: the selectors joined by a
  comma, and the block of the template literal of the source.
\<close>

definition getTextElementChainOverrideStyle :: "string list \<Rightarrow> string" where
  "getTextElementChainOverrideStyle containerSelectors' =
     (let matchedTextSelector = join '', '' containerSelectors'
      in matchedTextSelector @ '' {'' @ newline
         @ ''        width: 100% !important;'' @ newline
         @ ''        min-width: 0 !important;'' @ newline
         @ ''        max-width: calc(var(--lindy-pagewidth) - 2 * 40px) !important;'' @ newline
         @ ''        margin-left: auto !important;'' @ newline
         @ ''        margin-right: auto !important;'' @ newline
         @ ''        padding-left: 0 !important;'' @ newline
         @ ''        padding-right: 0 !important;'' @ newline
         @ ''        background: none !important;'' @ newline
         @ ''        border: none !important;'' @ newline
         @ ''        box-shadow: none !important;'' @ newline
         @ ''        transition: all 0.2s;'' @ newline
         @ ''    }'')"

section \<open>The selectors of a traversal, element by element\<close>

text \<open>
  \<open>containerSelectors\<close> and \<open>overrideCssDeclarations\<close> are lists of texts. To say which
  element a text was generated for, the traversal is followed once more: every
  \<open>containerSelectors.push\<close> is recorded with the element whose selector is pushed, as
  \<open>ParagraphChild\<close> for the entry \<open>selector > p\<close> that \<open>iterateParents\<close> pushes before its
  loop, and as \<open>Container\<close> for the entry the loop pushes.
\<close>

datatype generation = ParagraphChild nat string | Container nat string

text \<open>The text that is pushed to \<open>containerSelectors\<close>.\<close>

fun pushedText :: "generation \<Rightarrow> string" where
  "pushedText (ParagraphChild n currentSelector) = currentSelector @ '' > p''"
| "pushedText (Container n currentSelector) = currentSelector"

text \<open>
  The override rules that are appended for an entry: those of \<open>_getNodeOverrideStyles\<close>
  for an element of the loop, none for the entry \<open>selector > p\<close>.
\<close>

fun ruleOf :: "dom \<Rightarrow> generation \<Rightarrow> string list" where
  "ruleOf d (ParagraphChild n currentSelector) = []"
| "ruleOf d (Container n currentSelector) =
     (case getElement d n of
        None \<Rightarrow> []
      | Some e \<Rightarrow> getNodeOverrideStyles currentSelector (computedStyle e))"

fun containerNodes :: "generation list \<Rightarrow> nat list" where
  "containerNodes [] = []"
| "containerNodes (ParagraphChild n currentSelector # gs) = containerNodes gs"
| "containerNodes (Container n currentSelector # gs) = n # containerNodes gs"

fun paragraphParents :: "generation list \<Rightarrow> nat list" where
  "paragraphParents [] = []"
| "paragraphParents (ParagraphChild n currentSelector # gs) = n # paragraphParents gs"
| "paragraphParents (Container n currentSelector # gs) = paragraphParents gs"

text \<open>
  The entries of the loop of \<open>iterateParents\<close>, of \<open>iterateParents\<close>, of the callback of
  \<open>paragraphs.forEach\<close> and of \<open>iterateDOM\<close>, in the order of the pushes. Each function
  follows the function it is named after, branch by branch.
\<close>

function walkUpLog :: "(nat \<Rightarrow> string) \<Rightarrow> traversal \<Rightarrow> nat option \<Rightarrow> generation list" where
  "walkUpLog rnd st None = []"
| "walkUpLog rnd st (Some currentElem) =
     (if Some currentElem = body (document st) then []
      else if currentElem \<in> set (seenNodes st) then []
      else (case getElement (document st) currentElem of
              None \<Rightarrow> []
            | Some e \<Rightarrow>
                (let st1 = st\<lparr>seenNodes := set_add (seenNodes st) currentElem\<rparr>
                 in case isAsideEquivalent e of
                      Inl err \<Rightarrow> []
                    | Inr aside \<Rightarrow>
                        if aside then []
                        else (case getNodeSelector rnd st1 currentElem of
                                Inl err \<Rightarrow> []
                              | Inr (currentSelector, st1') \<Rightarrow>
                                  (case processContainer rnd st1 currentElem e of
                                     Inl err \<Rightarrow> []
                                   | Inr st2 \<Rightarrow>
                                       Container currentElem currentSelector
                                       # walkUpLog rnd st2 (parentElement e))))))"
  by pat_completeness auto
termination
proof (relation "measure (\<lambda>(rnd, st, cur). unseen st)")
  show "wf (measure (\<lambda>(rnd, st, cur). unseen st))" by simp
next
  fix rnd st currentElem e st1 aside x y z st2
  assume "currentElem \<notin> set (seenNodes st)" "getElement (document st) currentElem = Some e"
    "st1 = st\<lparr>seenNodes := set_add (seenNodes st) currentElem\<rparr>"
    "processContainer rnd st1 currentElem e = Inr st2"
  then have "unseen st2 < unseen st"
    using unseen_decreases [of st currentElem e rnd st2] by simp
  then show "((rnd, st2, parentElement e), (rnd, st, Some currentElem))
              \<in> measure (\<lambda>(rnd, st, cur). unseen st)"
    by simp
qed

declare walkUpLog.simps [simp del]

definition iterateParentsLog ::
  "(nat \<Rightarrow> string) \<Rightarrow> traversal \<Rightarrow> nat option \<Rightarrow> generation list" where
  "iterateParentsLog rnd st elem =
     (case elem of
        None \<Rightarrow> []
      | Some n \<Rightarrow>
          (if n \<notin> set (seenNodes st)
           then (case getNodeSelector rnd st n of
                   Inl err \<Rightarrow> []
                 | Inr (currentSelector, st1) \<Rightarrow>
                     ParagraphChild n currentSelector
                     # walkUpLog rnd
                         (st1\<lparr>containerSelectors := containerSelectors st1 @ [currentSelector @ '' > p'']\<rparr>)
                         (Some n))
           else walkUpLog rnd st (Some n)))"

fun forEachParagraphLog ::
  "(nat \<Rightarrow> string) \<Rightarrow> traversal \<Rightarrow> nat list \<Rightarrow> generation list" where
  "forEachParagraphLog rnd st [] = []"
| "forEachParagraphLog rnd st (elem # rest) =
     (case getElement (document st) elem of
        None \<Rightarrow> []
      | Some e \<Rightarrow>
          if \<not> isSVGElement e \<and> offsetHeight e = 0 then forEachParagraphLog rnd st rest
          else (case iterateParents rnd st (parentElement e) of
                  Inl err \<Rightarrow> []
                | Inr st' \<Rightarrow>
                    iterateParentsLog rnd st (parentElement e) @ forEachParagraphLog rnd st' rest))"

definition iterateDOMLog :: "(nat \<Rightarrow> string) \<Rightarrow> dom \<Rightarrow> generation list" where
  "iterateDOMLog rnd d =
     (case body d of
        None \<Rightarrow> []
      | Some b \<Rightarrow>
          (let paragraphs = querySelectorAll d b globalParagraphSelector;
               paragraphs = (if not_NodeList paragraphs
                             then querySelectorAll d b [TypeSel ''div'', TypeSel ''span'']
                             else paragraphs)
           in forEachParagraphLog rnd
                \<lparr>document = d, draws = 0, containerSelectors = [], overrideCssDeclarations = [],
                 backgroundColors = [], seenNodes = []\<rparr>
                paragraphs))"

text \<open>
  \<open>parentChain d k n\<close>: the element \<open>n\<close> and the next \<open>k\<close> elements of its chain of
  \<open>parentElement\<close> links, as far as the chain goes.
\<close>

fun parentChain :: "dom \<Rightarrow> nat \<Rightarrow> nat \<Rightarrow> nat list" where
  "parentChain d 0 n = [n]"
| "parentChain d (Suc k) n =
     n # (case getElement d n of
            None \<Rightarrow> []
          | Some e \<Rightarrow> (case parentElement e of None \<Rightarrow> [] | Some m \<Rightarrow> parentChain d k m))"

section \<open>Stylesheet Injector and Restorer\<close>

text \<open>
  \<open>pageViewTransition()\<close>. \<open>createStylesheetText\<close> of \<open>./common\<close> is a parameter: it takes the
  CSS text, the name of the style resource and the document.
\<close>

definition pageViewTransition ::
  "(string \<Rightarrow> string \<Rightarrow> dom \<Rightarrow> dom) \<Rightarrow> traversal \<Rightarrow> dom" where
  "pageViewTransition createStylesheetText st =
     createStylesheetText (join newline (overrideCssDeclarations st)) ''lindy-node-overrides''
       (createStylesheetText (getTextElementChainOverrideStyle (containerSelectors st))
          ''lindy-text-chain-override'' (document st))"

text \<open>\<open>unPatchDomTransform()\<close>.\<close>

definition unPatchDomTransform :: "dom \<Rightarrow> dom" where
  "unPatchDomTransform d =
     foldl remove d
       (document_querySelectorAll d
          [ClassSel ''lindy-font-size'', ClassSel ''lindy-text-chain-override'',
           ClassSel ''lindy-node-overrides''])"

text \<open>\<open>document.head\<close>.\<close>

definition head :: "dom \<Rightarrow> nat option" where
  "head d =
     (case documentElement d of
        None \<Rightarrow> None
      | Some r \<Rightarrow>
          List.find (\<lambda>n. parentNode (d ! n) = Some (Element r) \<and> tagName (d ! n) = ''HEAD'')
                    [0..<length d])"

text \<open>
  Modelled from the spec: \<open>createStylesheetText\<close> of \<open>./common\<close>, which is not among
  the sources. The spec: \<open>inject(name, cssText)\<close> creates or replaces a uniquely-named style
  resource in the document head/body; calling it twice with the same name must not
  leave two active resources (old one removed first); the restorer removes every
  resource tagged with one of the generated names. Here the resources of that name
  are removed first, and the new style element carries the name as its class and id.
\<close>

definition createStylesheetText :: "string \<Rightarrow> string \<Rightarrow> dom \<Rightarrow> dom" where
  "createStylesheetText text' styleId d =
     (let d1 = foldl remove d (document_querySelectorAll d [ClassSel styleId]);
          style = \<lparr>tagName = ''STYLE'', isSVGElement = False, classList = [styleId],
                   elemId = styleId,
                   attributes = [(''type'', ''text/css'')],
                   parentNode = (case head d1 of Some h \<Rightarrow> Some (Element h)
                                 | None \<Rightarrow> (case body d1 of Some b \<Rightarrow> Some (Element b) | None \<Rightarrow> None)),
                   offsetHeight = 0,
                   computedStyle = \<lparr>display = ''none'', flexDirection = ''row'',
                                     backgroundColor = ''rgba(0, 0, 0, 0)''\<rparr>,
                   textContent = text'\<rparr>
      in d1 @ [style])"

section \<open>External CSS Rewriter\<close>

text \<open>
  The nodes of the parsed stylesheet the plugins visit. \<open>alreadyProcessed\<close> is the
  property the plugins set on a node.
\<close>

record css_node =
  alreadyProcessed :: bool

record at_rule = css_node +
  rule_name :: string
  rule_params :: string

record css_declaration = css_node +
  decl_prop :: string
  decl_value :: string
  important :: bool

subsection \<open>Strings and numbers\<close>

definition isDigit :: "char \<Rightarrow> bool" where
  "isDigit c = ((48::nat) \<le> of_char c \<and> of_char c \<le> (57::nat))"

text \<open>
  The matches of \<open>/([0-9]+)/g\<close>: the maximal runs of digits, from left to right.
  \<open>run\<close> holds the digits of the run being read.
\<close>

fun digitRuns :: "string \<Rightarrow> string \<Rightarrow> string list" where
  "digitRuns run [] = (if run = [] then [] else [run])"
| "digitRuns run (c # cs) =
     (if isDigit c then digitRuns (run @ [c]) cs
      else (if run = [] then [] else [run]) @ digitRuns [] cs)"

text \<open>\<open>parseInt\<close> of a string of digits.\<close>

definition parseInt :: "string \<Rightarrow> nat" where
  "parseInt s = foldl (\<lambda>a c. 10 * a + (of_char c - 48)) 0 s"

text \<open>\<open>Number.prototype.toString\<close> of an integer, in decimal notation.\<close>

fun nat_toString :: "nat \<Rightarrow> string" where
  "nat_toString n =
     (if n < 10 then [char_of (48 + n)]
      else nat_toString (n div 10) @ [char_of (48 + n mod 10)])"

declare nat_toString.simps [simp del]

definition int_toString :: "int \<Rightarrow> string" where
  "int_toString i = (if i < 0 then ''-'' @ nat_toString (nat (- i)) else nat_toString (nat i))"

text \<open>\<open>Math.round\<close>: the nearest integer, a half rounded up.\<close>

definition Math_round :: "rat \<Rightarrow> int" where
  "Math_round x = \<lfloor>x + 1 / 2\<rfloor>"

text \<open>
  \<open>findFirst pat s\<close>: the text before and the text after the first occurrence of \<open>pat\<close>
  in \<open>s\<close>.
\<close>

fun findFirst :: "string \<Rightarrow> string \<Rightarrow> (string \<times> string) option" where
  "findFirst pat [] = (if pat = [] then Some ([], []) else None)"
| "findFirst pat (c # cs) =
     (if prefix pat (c # cs) then Some ([], drop (length pat) (c # cs))
      else map_option (\<lambda>(pre, post). (c # pre, post)) (findFirst pat cs))"

text \<open>
  The replacement patterns of \<open>String.prototype.replace\<close> with a string pattern:
  \<open>$$\<close>, \<open>$&\<close>, \<open>$`\<close> and \<open>$'\<close>.
\<close>

fun expandReplacement :: "string \<Rightarrow> string \<Rightarrow> string \<Rightarrow> string \<Rightarrow> string" where
  "expandReplacement matched pre post [] = []"
| "expandReplacement matched pre post [c] = [c]"
| "expandReplacement matched pre post (c # c' # cs) =
     (if c = CHR ''$'' \<and> c' = CHR ''$'' then CHR ''$'' # expandReplacement matched pre post cs
      else if c = CHR ''$'' \<and> c' = CHR ''&'' then matched @ expandReplacement matched pre post cs
      else if c = CHR ''$'' \<and> c' = CHR 0x60 then pre @ expandReplacement matched pre post cs
      else if c = CHR ''$'' \<and> c' = CHR 0x27 then post @ expandReplacement matched pre post cs
      else c # expandReplacement matched pre post (c' # cs))"

text \<open>\<open>s.replace(pat, replacement)\<close> with strings: the first occurrence only.\<close>

definition js_replace :: "string \<Rightarrow> string \<Rightarrow> string \<Rightarrow> string" where
  "js_replace s pat replacement =
     (case findFirst pat s of
        None \<Rightarrow> s
      | Some (pre, post) \<Rightarrow> pre @ expandReplacement pat pre post replacement @ post)"

subsection \<open>Breakpoint scaling\<close>

text \<open>
  The \<open>AtRule\<close> listener of \<open>scaleBreakpointsPlugin(conditionScale)\<close>. The scale factor
  and the product are exact rationals here.
\<close>

definition scaleStep :: "rat \<Rightarrow> string \<Rightarrow> string \<Rightarrow> string" where
  "scaleStep conditionScale condition match1 =
     (let oldCount = parseInt match1;
          newCount = Math_round (conditionScale * of_nat oldCount)
      in js_replace condition (nat_toString oldCount) (int_toString newCount))"

definition scaleBreakpointsPlugin_AtRule :: "rat \<Rightarrow> at_rule \<Rightarrow> at_rule" where
  "scaleBreakpointsPlugin_AtRule conditionScale rule =
     (if rule_name rule = ''media''
      then (if alreadyProcessed rule then rule
            else rule\<lparr>alreadyProcessed := True,
                      rule_params := foldl (scaleStep conditionScale) (rule_params rule)
                                  (digitRuns [] (rule_params rule))\<rparr>)
      else rule)"

subsection \<open>URL absolutization\<close>

definition dquote :: char where
  "dquote = CHR 0x22"

text \<open>
  The negative lookahead \<open>(?!"?'?(?:data:|#|https?:\/\/))\<close> on the text after \<open>url(\<close>:
  \<open>lookaheadExcludes rest\<close> holds when the lookahead rejects the position, with either
  optional quote taken or not.
\<close>

definition startsAbsolute :: "string \<Rightarrow> bool" where
  "startsAbsolute s = list_ex (\<lambda>p. prefix p s) [''data:'', ''#'', ''http://'', ''https://'']"

definition lookaheadExcludes :: "string \<Rightarrow> bool" where
  "lookaheadExcludes rest =
     (startsAbsolute rest
      \<or> (prefix [dquote] rest \<and> startsAbsolute (drop 1 rest))
      \<or> (prefix [apostrophe] rest \<and> startsAbsolute (drop 1 rest))
      \<or> (prefix [dquote, apostrophe] rest \<and> startsAbsolute (drop 2 rest)))"

text \<open>
  The group \<open>([^\)]*?)\<close> in \<open>"?'?([^\)]*?)"?'?\)\<close>, for the text \<open>seg\<close> between \<open>url(\<close> and
  the next \<open>)\<close>: the greedy \<open>"?'?\<close> in front take a double quote, then a single quote,
  when they are there; the lazy group stops as soon as \<open>"?'?\<close> can take all that is
  left before the \<open>)\<close>.
\<close>

definition stripLeadingQuotes :: "string \<Rightarrow> string" where
  "stripLeadingQuotes seg =
     (let s1 = (if prefix [dquote] seg then drop 1 seg else seg)
      in if prefix [apostrophe] s1 then drop 1 s1 else s1)"

definition stripTrailingQuotes :: "string \<Rightarrow> string" where
  "stripTrailingQuotes s =
     (if suffix [dquote, apostrophe] s then take (length s - 2) s
      else if suffix [dquote] s \<or> suffix [apostrophe] s then take (length s - 1) s
      else s)"

definition captureUrl :: "string \<Rightarrow> string" where
  "captureUrl seg = stripTrailingQuotes (stripLeadingQuotes seg)"

text \<open>
  One attempt of \<open>/url\((?!"?'?(?:data:|#|https?:\/\/))"?'?([^\)]*?)"?'?\)/\<close> at the start
  of \<open>s\<close>: the captured group and the length of the match.
\<close>

definition matchUrlAt :: "string \<Rightarrow> (string \<times> nat) option" where
  "matchUrlAt s =
     (if prefix ''url('' s
      then (let rest = drop 4 s
            in if lookaheadExcludes rest then None
               else if CHR '')'' \<in> set rest
               then (let seg = takeWhile (\<lambda>c. c \<noteq> CHR '')'') rest
                     in Some (captureUrl seg, 4 + length seg + 1))
               else None)
      else None)"

text \<open>
  \<open>matchAll\<close> with the global flag: \<open>urlMatches k s\<close> lists the captured groups of the
  matches in \<open>s\<close>, where the first \<open>k\<close> characters of \<open>s\<close> still belong to the previous
  match.
\<close>

fun urlMatches :: "nat \<Rightarrow> string \<Rightarrow> string list" where
  "urlMatches k [] = []"
| "urlMatches 0 (c # cs) =
     (case matchUrlAt (c # cs) of
        None \<Rightarrow> urlMatches 0 cs
      | Some (url, len) \<Rightarrow> url # urlMatches (len - 1) cs)"
| "urlMatches (Suc k) (c # cs) = urlMatches k cs"

text \<open>
  The loop over the matches. \<open>URL_href url baseUrl\<close> is \<open>new URL(url, baseUrl).href\<close>,
  \<open>None\<close> when the constructor throws.
\<close>

fun rewriteUrls ::
  "(string \<Rightarrow> string \<Rightarrow> string option) \<Rightarrow> string \<Rightarrow> string \<Rightarrow> string list \<Rightarrow> js_error + string" where
  "rewriteUrls URL_href baseUrl newValue [] = Inr newValue"
| "rewriteUrls URL_href baseUrl newValue (url # rest) =
     (case URL_href url baseUrl of
        None \<Rightarrow> Inl TypeError
      | Some href \<Rightarrow> rewriteUrls URL_href baseUrl (js_replace newValue url href) rest)"

text \<open>The \<open>Declaration\<close> listener of \<open>urlRewritePlugin(baseUrl)\<close>.\<close>

definition urlRewritePlugin_Declaration ::
  "(string \<Rightarrow> string \<Rightarrow> string option) \<Rightarrow> string \<Rightarrow> css_declaration \<Rightarrow> js_error + css_declaration" where
  "urlRewritePlugin_Declaration URL_href baseUrl decl =
     (if prefix ''url('' (decl_value decl)
      then (if alreadyProcessed decl then Inr decl
            else if prefix ''url(data:'' (decl_value decl) then Inr decl
            else (case rewriteUrls URL_href baseUrl (decl_value decl)
                         (urlMatches 0 (decl_value decl)) of
                    Inl err \<Rightarrow> Inl err
                  | Inr newValue \<Rightarrow> Inr (decl\<lparr>alreadyProcessed := True, decl_value := newValue\<rparr>)))
      else Inr decl)"

text \<open>
  The \<open>AtRule\<close> listener of \<open>urlRewritePlugin(baseUrl)\<close>. With the global flag,
  \<open>params.match(/"?'?([^\)]*?)"?'?\)/g)\<close> is the list of the whole matches, each one the text
  up to and including the next \<open>)\<close>, or \<open>null\<close>; \<open>?.[1]\<close> is its second element, or
  \<open>undefined\<close>. \<open>new URL\<close> and \<open>replace\<close> read \<open>undefined\<close> as the text \<open>undefined\<close>.
\<close>

fun upToParen :: "string \<Rightarrow> string \<Rightarrow> string list" where
  "upToParen seg [] = []"
| "upToParen seg (c # cs) =
     (if c = CHR '')'' then (seg @ [c]) # upToParen [] cs else upToParen (seg @ [c]) cs)"

definition secondMatch :: "string \<Rightarrow> string option" where
  "secondMatch ps = (case upToParen [] ps of _ # m # _ \<Rightarrow> Some m | _ \<Rightarrow> None)"

definition toText :: "string option \<Rightarrow> string" where
  "toText v = (case v of None \<Rightarrow> ''undefined'' | Some s \<Rightarrow> s)"

definition urlRewritePlugin_AtRule ::
  "(string \<Rightarrow> string \<Rightarrow> string option) \<Rightarrow> string \<Rightarrow> at_rule \<Rightarrow> js_error + at_rule" where
  "urlRewritePlugin_AtRule URL_href baseUrl rule =
     (if rule_name rule = ''import''
      then (let url = secondMatch (rule_params rule)
            in case URL_href (toText url) baseUrl of
                 None \<Rightarrow> Inl TypeError
               | Some href \<Rightarrow>
                   Inr (rule\<lparr>rule_params := js_replace (rule_params rule) (toText url) href\<rparr>))
      else Inr rule)"

subsection \<open>Values made of references\<close>

text \<open>
  The values claim C4 speaks about: a sequence of references \<open>url(u)\<close>, \<open>url("u")\<close> or
  \<open>url('u')\<close>, each followed by some other text. \<open>Reference q u t\<close> is the reference to
  \<open>u\<close> with the quoting \<open>q\<close>, followed by the text \<open>t\<close>.
\<close>

datatype quoting = Unquoted | DoubleQuoted | SingleQuoted

fun quoteText :: "quoting \<Rightarrow> string" where
  "quoteText Unquoted = []"
| "quoteText DoubleQuoted = [dquote]"
| "quoteText SingleQuoted = [apostrophe]"

datatype reference = Reference quoting string string

fun renderReference :: "reference \<Rightarrow> string" where
  "renderReference (Reference q u t) = ''url('' @ quoteText q @ u @ quoteText q @ '')'' @ t"

definition renderValue :: "reference list \<Rightarrow> string" where
  "renderValue refs = concat (map renderReference refs)"

text \<open>
  A reference is well formed when \<open>u\<close> holds no closing parenthesis and fits its quoting,
  the text after it holds no \<open>url(\<close>, and an absolute \<open>u\<close> holds no \<open>url(\<close> either. An
  unquoted \<open>u\<close> holds no quote; a \<open>u\<close> in double quotes holds no double quote and does not
  begin with a single quote; a \<open>u\<close> in single quotes holds no single quote and does not
  end with a double quote.
\<close>

fun quotesFit :: "quoting \<Rightarrow> string \<Rightarrow> bool" where
  "quotesFit Unquoted u = (dquote \<notin> set u \<and> apostrophe \<notin> set u)"
| "quotesFit DoubleQuoted u = (dquote \<notin> set u \<and> \<not> prefix [apostrophe] u)"
| "quotesFit SingleQuoted u = (apostrophe \<notin> set u \<and> \<not> suffix [dquote] u)"

fun wellFormed :: "reference \<Rightarrow> bool" where
  "wellFormed (Reference q u t) =
     (CHR '')'' \<notin> set u \<and> quotesFit q u
      \<and> \<not> str_includes t ''url(''
      \<and> \<not> (startsAbsolute u \<and> str_includes u ''url(''))"

text \<open>
  What the claim asks of the pass, reference by reference: a \<open>u\<close> that begins with
  \<open>data:\<close>, \<open>#\<close>, \<open>http://\<close> or \<open>https://\<close> stays, and any other \<open>u\<close> becomes
  \<open>new URL(u, baseUrl).href\<close>. \<open>expectedValue\<close> is the value the claim expects.
\<close>

fun expectedReference ::
  "(string \<Rightarrow> string \<Rightarrow> string option) \<Rightarrow> string \<Rightarrow> reference \<Rightarrow> reference" where
  "expectedReference URL_href baseUrl (Reference q u t) =
     (if startsAbsolute u then Reference q u t
      else (case URL_href u baseUrl of
              None \<Rightarrow> Reference q u t
            | Some href \<Rightarrow> Reference q href t))"

definition expectedValue ::
  "(string \<Rightarrow> string \<Rightarrow> string option) \<Rightarrow> string \<Rightarrow> reference list \<Rightarrow> string" where
  "expectedValue URL_href baseUrl refs = renderValue (map (expectedReference URL_href baseUrl) refs)"

text \<open>
  \<open>replaceable URL_href baseUrl rewritten refs\<close>: for every relative reference of \<open>refs\<close>
  the URL constructor returns a text without \<open>$\<close>, and, with \<open>rewritten\<close> the value written
  so far, the first occurrence of \<open>u\<close> in the value is the one in the reference itself.
\<close>

fun replaceable ::
  "(string \<Rightarrow> string \<Rightarrow> string option) \<Rightarrow> string \<Rightarrow> string \<Rightarrow> reference list \<Rightarrow> bool" where
  "replaceable URL_href baseUrl rewritten [] = True"
| "replaceable URL_href baseUrl rewritten (Reference q u t # refs) =
     (if startsAbsolute u
      then replaceable URL_href baseUrl (rewritten @ renderReference (Reference q u t)) refs
      else (case URL_href u baseUrl of
              None \<Rightarrow> False
            | Some href \<Rightarrow>
                CHR ''$'' \<notin> set href
                \<and> findFirst u (rewritten @ ''url('' @ quoteText q @ u)
                    = Some (rewritten @ ''url('' @ quoteText q, [])
                \<and> replaceable URL_href baseUrl
                    (rewritten @ renderReference (Reference q href t)) refs))"

text \<open>The texts \<open>u\<close> of the relative references, in order.\<close>

fun relativeUrls :: "reference list \<Rightarrow> string list" where
  "relativeUrls [] = []"
| "relativeUrls (Reference q u t # refs) =
     (if startsAbsolute u then relativeUrls refs else u # relativeUrls refs)"

section \<open>Background Color Resolver\<close>

text \<open>
  Modelled from the spec: the theme variable store of \<open>./theme\<close>, which is not among the
  sources. The spec: a key-value store of CSS custom properties with \<open>get(name)\<close> and
  \<open>set(name, value, persist?)\<close>. A variable that was never set reads as the empty text.
\<close>

type_synonym theme = "string \<rightharpoonup> string"

definition getThemeValue :: "theme \<Rightarrow> string \<Rightarrow> string" where
  "getThemeValue th varName = (case th varName of None \<Rightarrow> [] | Some v \<Rightarrow> v)"

definition setCssThemeVariable :: "theme \<Rightarrow> string \<Rightarrow> string \<Rightarrow> bool \<Rightarrow> theme" where
  "setCssThemeVariable th varName v persist = th(varName \<mapsto> v)"

text \<open>The names of the variables, constants of \<open>./theme\<close>.\<close>

record theme_variables =
  originalBackgroundThemeVariable :: string
  backgroundColorThemeVariable :: string
  activeColorThemeVariable :: string

text \<open>
  \<open>_processBackgroundColors(textBackgroundColors)\<close>. \<open>getBrightness c\<close> is
  \<open>tinycolor(c).getBrightness()\<close>. \<open>!themeName\<close> holds for the empty text.
\<close>

definition processBackgroundColors ::
  "theme_variables \<Rightarrow> (string \<Rightarrow> rat) \<Rightarrow> theme \<Rightarrow> string list \<Rightarrow> theme" where
  "processBackgroundColors V getBrightness th textBackgroundColors =
     (let bodyColor = getThemeValue th (originalBackgroundThemeVariable V);
          pickedColor = (if length textBackgroundColors > 0 then textBackgroundColors ! 0
                         else bodyColor);
          brightness = getBrightness pickedColor;
          pickedColor = (if brightness > 230 then ''white'' else pickedColor);
          th1 = setCssThemeVariable th (originalBackgroundThemeVariable V) pickedColor True;
          themeName = getThemeValue th1 (activeColorThemeVariable V)
      in if themeName = [] \<or> themeName = ''auto''
         then setCssThemeVariable th1 (backgroundColorThemeVariable V) pickedColor True
         else th1)"

text \<open>
  Values for the examples: variable names, the brightness of the two colors of the
  examples as \<open>tinycolor\<close> computes it, and a resolver that agrees with
  \<open>new URL(url, baseUrl).href\<close> on the references of the examples.
\<close>

definition exampleVariables :: theme_variables where
  "exampleVariables =
     \<lparr>originalBackgroundThemeVariable = ''--lindy-original-background'',
      backgroundColorThemeVariable = ''--lindy-background-color'',
      activeColorThemeVariable = ''--lindy-active-color-theme''\<rparr>"

definition exampleBrightness :: "string \<Rightarrow> rat" where
  "exampleBrightness c =
     (if c = ''rgb(250,250,250)'' then 250 else if c = ''rgb(30,30,30)'' then 30 else 0)"

definition exampleURL :: "string \<Rightarrow> string \<Rightarrow> string option" where
  "exampleURL url baseUrl =
     (if baseUrl = ''https://site.com/css/a.css''
      then (if prefix ''../'' url then Some (''https://site.com/'' @ drop 3 url)
            else Some (''https://site.com/css/'' @ url))
      else None)"

section \<open>Example documents\<close>

text \<open>
  A small article page: \<open>html\<close>, \<open>head\<close> and \<open>body\<close>; under the body a \<open>div\<close> with two
  paragraphs and a \<open>footer\<close> with one. A page without paragraph tags: a \<open>div\<close> holding a
  \<open>span\<close>. A page with a paragraph inside an inline drawing: under the body a \<open>div\<close>
  holding \<open>svg > foreignObject > p\<close>. \<open>exampleRandom\<close> stands for the draws of
  \<open>Math.random\<close>: the digits after the decimal point are \<open>7\<close> for the first draw, \<open>77\<close>
  for the second, \<open>777\<close> for the third, and so on.
\<close>

definition exampleElement ::
  "string \<Rightarrow> string \<Rightarrow> string list \<Rightarrow> string \<Rightarrow> parent_ref option \<Rightarrow> nat \<Rightarrow> element" where
  "exampleElement tg ident cls disp par h =
     \<lparr>tagName = tg, isSVGElement = False, classList = cls, elemId = ident, attributes = [],
      parentNode = par, offsetHeight = h,
      computedStyle = \<lparr>display = disp, flexDirection = ''row'',
                        backgroundColor = ''rgba(0, 0, 0, 0)''\<rparr>,
      textContent = []\<rparr>"

definition articleDocument :: dom where
  "articleDocument =
     [exampleElement ''HTML'' [] [] ''block'' (Some Document) 100,
      exampleElement ''HEAD'' [] [] ''none'' (Some (Element 0)) 0,
      exampleElement ''BODY'' [] [] ''block'' (Some (Element 0)) 100,
      exampleElement ''DIV'' ''main'' [''article''] ''block'' (Some (Element 2)) 60,
      exampleElement ''P'' [] [] ''block'' (Some (Element 3)) 20,
      exampleElement ''P'' [] [] ''block'' (Some (Element 3)) 20,
      exampleElement ''FOOTER'' [] [] ''block'' (Some (Element 2)) 20,
      exampleElement ''P'' [] [] ''block'' (Some (Element 6)) 20]"

definition divDocument :: dom where
  "divDocument =
     [exampleElement ''HTML'' [] [] ''block'' (Some Document) 100,
      exampleElement ''HEAD'' [] [] ''none'' (Some (Element 0)) 0,
      exampleElement ''BODY'' [] [] ''block'' (Some (Element 0)) 100,
      exampleElement ''DIV'' [] [] ''block'' (Some (Element 2)) 60,
      exampleElement ''SPAN'' [] [] ''inline'' (Some (Element 3)) 20]"

definition svgDocument :: dom where
  "svgDocument =
     [exampleElement ''HTML'' [] [] ''block'' (Some Document) 100,
      exampleElement ''HEAD'' [] [] ''none'' (Some (Element 0)) 0,
      exampleElement ''BODY'' [] [] ''block'' (Some (Element 0)) 100,
      exampleElement ''DIV'' [] [] ''block'' (Some (Element 2)) 60,
      (exampleElement ''svg'' [] [] ''inline'' (Some (Element 3)) 0)\<lparr>isSVGElement := True\<rparr>,
      (exampleElement ''foreignObject'' [] [] ''inline'' (Some (Element 4)) 0)
        \<lparr>isSVGElement := True\<rparr>,
      exampleElement ''P'' [] [] ''block'' (Some (Element 5)) 20]"

definition exampleRandom :: "nat \<Rightarrow> string" where
  "exampleRandom k = replicate (Suc k) (CHR ''7'')"

definition startTraversal :: "dom \<Rightarrow> traversal" where
  "startTraversal d =
     \<lparr>document = d, draws = 0, containerSelectors = [], overrideCssDeclarations = [],
      backgroundColors = [], seenNodes = []\<rparr>"

text \<open>A traversal that has already visited the \<open>div\<close> of the article page.\<close>

definition visitedTraversal :: traversal where
  "visitedTraversal = (startTraversal articleDocument)\<lparr>seenNodes := [3]\<rparr>"

text \<open>A declaration that was not processed yet, with the given value.\<close>

definition exampleDeclaration :: "string \<Rightarrow> css_declaration" where
  "exampleDeclaration v =
     \<lparr>alreadyProcessed = False, decl_prop = ''background-image'', decl_value = v,
      important = False\<rparr>"

text \<open>
  A page with two sections in a \<open>div\<close> that is a flex row, one paragraph in each section.
\<close>

definition nestedDocument :: dom where
  "nestedDocument =
     [exampleElement ''HTML'' [] [] ''block'' (Some Document) 100,
      exampleElement ''HEAD'' [] [] ''none'' (Some (Element 0)) 0,
      exampleElement ''BODY'' [] [] ''block'' (Some (Element 0)) 100,
      exampleElement ''DIV'' ''wrap'' [] ''flex'' (Some (Element 2)) 60,
      exampleElement ''SECTION'' [] [] ''block'' (Some (Element 3)) 30,
      exampleElement ''P'' [] [] ''block'' (Some (Element 4)) 30,
      exampleElement ''SECTION'' [] [] ''block'' (Some (Element 3)) 30,
      exampleElement ''P'' [] [] ''block'' (Some (Element 6)) 30]"

text \<open>
  The references of the value
  \<open>url(a.png), url('../b.png') no-repeat, url("c.png") 2x, url(https://cdn.site.com/d.png), url(#clip)\<close>.
\<close>

definition exampleReferences :: "reference list" where
  "exampleReferences =
     [Reference Unquoted ''a.png'' '', '',
      Reference SingleQuoted ''../b.png'' '' no-repeat, '',
      Reference DoubleQuoted ''c.png'' '' 2x, '',
      Reference Unquoted ''https://cdn.site.com/d.png'' '', '',
      Reference Unquoted ''#clip'' []]"

section \<open>Auxiliary notions\<close>

text \<open>
  \<open>sameTree d d'\<close>: the two stores hold the same tree, with the same tag names, sizes and
  computed styles; class lists may differ. \<open>noSVG d\<close>: no element of the store is an SVG
  element.
\<close>

definition sameTree :: "dom \<Rightarrow> dom \<Rightarrow> bool" where
  "sameTree d d' =
     (length d' = length d
      \<and> (\<forall>n<length d. parentNode (d' ! n) = parentNode (d ! n)
                        \<and> tagName (d' ! n) = tagName (d ! n)
                        \<and> isSVGElement (d' ! n) = isSVGElement (d ! n)
                        \<and> offsetHeight (d' ! n) = offsetHeight (d ! n)
                        \<and> computedStyle (d' ! n) = computedStyle (d ! n)))"

definition noSVG :: "dom \<Rightarrow> bool" where
  "noSVG d = list_all (\<lambda>e. \<not> isSVGElement e) d"

text \<open>
  \<open>staysAside d d'\<close>: an element that \<open>_isAsideEquivalent\<close> accepts in \<open>d\<close> is accepted in
  \<open>d'\<close>. \<open>chainsClosed st C cur\<close>: every visited element is aside-equivalent, or it is in
  \<open>C\<close> and its parent element, if it has one, is the body, visited, or \<open>cur\<close>.
\<close>

definition staysAside :: "dom \<Rightarrow> dom \<Rightarrow> bool" where
  "staysAside d d' =
     (\<forall>n. isAsideEquivalent (d ! n) = Inr True \<longrightarrow> isAsideEquivalent (d' ! n) = Inr True)"

definition chainsClosed :: "traversal \<Rightarrow> nat set \<Rightarrow> nat option \<Rightarrow> bool" where
  "chainsClosed st C cur =
     (\<forall>n \<in> set (seenNodes st).
        isAsideEquivalent (document st ! n) = Inr True
        \<or> (n \<in> C
            \<and> (\<forall>e m. getElement (document st) n = Some e \<longrightarrow> parentElement e = Some m \<longrightarrow>
                  body (document st) = Some m \<or> m \<in> set (seenNodes st) \<or> cur = Some m)))"

section \<open>Lemmas on the traversal\<close>

lemma someBlocklisted_html:
  "\<not> isSVGElement node \<Longrightarrow>
     someBlocklisted node ws
       = Inr (list_ex (\<lambda>word. str_includes (toLowerCase (className node)) word
                             \<or> str_includes (toLowerCase (elemId node)) word) ws)"
  by (induction ws) (auto simp: className_toLowerCase_def)

lemma isAsideEquivalent_html:
  "\<not> isSVGElement node \<Longrightarrow>
     isAsideEquivalent node
       = Inr (tagName node = ''HEADER'' \<or> tagName node = ''FOOTER'' \<or> tagName node = ''ASIDE''
              \<or> tagName node = ''CODE''
              \<or> list_ex (\<lambda>word. str_includes (toLowerCase (className node)) word
                                \<or> str_includes (toLowerCase (elemId node)) word)
                   asideWordBlocklist
              \<or> hasAttribute node ''data-language'')"
  by (simp add: isAsideEquivalent_def someBlocklisted_html)

lemma isAsideEquivalent_svg:
  "isSVGElement node \<Longrightarrow>
     isAsideEquivalent node
       = (if tagName node = ''HEADER'' \<or> tagName node = ''FOOTER'' \<or> tagName node = ''ASIDE''
             \<or> tagName node = ''CODE''
          then Inr True else Inl TypeError)"
  by (simp add: isAsideEquivalent_def asideWordBlocklist_def className_toLowerCase_def)

lemma isAsideEquivalent_defined:
  "\<not> isSVGElement node \<Longrightarrow> \<exists>aside. isAsideEquivalent node = Inr aside"
  by (simp add: isAsideEquivalent_html)

lemma sameTree_refl: "sameTree d d"
  by (simp add: sameTree_def)

lemma sameTree_trans: "sameTree d d' \<Longrightarrow> sameTree d' d'' \<Longrightarrow> sameTree d d''"
  by (simp add: sameTree_def)

lemma sameTree_ancestorWithin:
  "sameTree d d' \<Longrightarrow> ancestorWithin k d' a n = ancestorWithin k d a n"
proof (induction k arbitrary: n)
  case 0
  show ?case by simp
next
  case (Suc k)
  show ?case
  proof (cases "n < length d")
    case True
    with Suc.prems have "parentNode (d' ! n) = parentNode (d ! n)" "length d' = length d"
      by (simp_all add: sameTree_def)
    with True Suc.IH [OF Suc.prems] show ?thesis
      by (simp add: getElement_def split: option.splits parent_ref.splits)
  next
    case False
    with Suc.prems show ?thesis by (simp add: getElement_def sameTree_def)
  qed
qed

lemma sameTree_isDescendant:
  "sameTree d d' \<Longrightarrow> isDescendant d' a n = isDescendant d a n"
  by (simp add: isDescendant_def sameTree_ancestorWithin) (simp add: sameTree_def)

lemma sameTree_documentElement:
  assumes "sameTree d d'"
  shows "documentElement d' = documentElement d"
proof -
  from assms have len: "length d' = length d" by (simp add: sameTree_def)
  have "List.find (\<lambda>n. parentNode (d' ! n) = Some Document) [0..<length d]
        = List.find (\<lambda>n. parentNode (d ! n) = Some Document) [0..<length d]"
    using assms by (intro find_cong) (auto simp: sameTree_def)
  with len show ?thesis by (simp add: documentElement_def)
qed

lemma sameTree_body:
  assumes "sameTree d d'"
  shows "body d' = body d"
proof -
  from assms have len: "length d' = length d" by (simp add: sameTree_def)
  have "\<And>r. List.find (\<lambda>n. parentNode (d' ! n) = Some (Element r)
                          \<and> (tagName (d' ! n) = ''BODY'' \<or> tagName (d' ! n) = ''FRAMESET''))
                    [0..<length d]
        = List.find (\<lambda>n. parentNode (d ! n) = Some (Element r)
                          \<and> (tagName (d ! n) = ''BODY'' \<or> tagName (d ! n) = ''FRAMESET''))
                    [0..<length d]"
    using assms by (intro find_cong) (auto simp: sameTree_def)
  with len sameTree_documentElement [OF assms] show ?thesis
    by (simp add: body_def split: option.splits)
qed

lemma getNodeSelector_sameTree:
  "getNodeSelector rnd st n = Inr (sel, st') \<Longrightarrow> sameTree (document st) (document st')"
  by (auto simp: getNodeSelector_def Let_def sameTree_def getElement_def nth_list_update
           split: option.splits if_splits)

lemma processContainer_sameTree:
  "processContainer rnd st n e = Inr st' \<Longrightarrow> sameTree (document st) (document st')"
  by (auto simp: processContainer_def Let_def split: sum.splits if_splits
           dest: getNodeSelector_sameTree)

lemma getNodeSelector_defined:
  "getElement (document st) n = Some e \<Longrightarrow> \<exists>sel st'. getNodeSelector rnd st n = Inr (sel, st')"
  by (simp add: getNodeSelector_def Let_def)

lemma processContainer_defined:
  "getElement (document st) n = Some e' \<Longrightarrow> \<exists>st'. processContainer rnd st n e = Inr st'"
  using getNodeSelector_defined [of st n e' rnd]
  by (auto simp: processContainer_def Let_def)

lemma sameTree_noSVG: "sameTree d d' \<Longrightarrow> noSVG d' = noSVG d"
  by (auto simp: sameTree_def noSVG_def list_all_length)

lemma noSVG_getElement: "noSVG d \<Longrightarrow> getElement d n = Some e \<Longrightarrow> \<not> isSVGElement e"
  by (auto simp: noSVG_def list_all_length getElement_def split: if_splits)

lemma walkUp_body:
  "body (document st) = Some cur \<Longrightarrow> walkUp rnd st (Some cur) = Inr st"
  by (subst walkUp.simps) auto

lemma walkUp_seen:
  "cur \<in> set (seenNodes st) \<Longrightarrow> walkUp rnd st (Some cur) = Inr st"
  by (subst walkUp.simps) auto

lemma walkUp_dangling:
  "body (document st) \<noteq> Some cur \<Longrightarrow> cur \<notin> set (seenNodes st) \<Longrightarrow>
   getElement (document st) cur = None \<Longrightarrow> walkUp rnd st (Some cur) = Inl TypeError"
  by (subst walkUp.simps) auto

lemma walkUp_throws:
  "body (document st) \<noteq> Some cur \<Longrightarrow> cur \<notin> set (seenNodes st) \<Longrightarrow>
   getElement (document st) cur = Some e \<Longrightarrow> isAsideEquivalent e = Inl err \<Longrightarrow>
   walkUp rnd st (Some cur) = Inl err"
  by (subst walkUp.simps) auto

lemma walkUp_aside:
  "body (document st) \<noteq> Some cur \<Longrightarrow> cur \<notin> set (seenNodes st) \<Longrightarrow>
   getElement (document st) cur = Some e \<Longrightarrow> isAsideEquivalent e = Inr True \<Longrightarrow>
   walkUp rnd st (Some cur) = Inr (st\<lparr>seenNodes := seenNodes st @ [cur]\<rparr>)"
  by (subst walkUp.simps) (auto simp: set_add_def)

lemma walkUp_step:
  "body (document st) \<noteq> Some cur \<Longrightarrow> cur \<notin> set (seenNodes st) \<Longrightarrow>
   getElement (document st) cur = Some e \<Longrightarrow> isAsideEquivalent e = Inr False \<Longrightarrow>
   walkUp rnd st (Some cur) =
     (case processContainer rnd (st\<lparr>seenNodes := seenNodes st @ [cur]\<rparr>) cur e of
        Inl err \<Rightarrow> Inl err
      | Inr st2 \<Rightarrow> walkUp rnd st2 (parentElement e))"
  by (subst walkUp.simps) (auto simp: set_add_def)

lemma walkUp_Inr_induct [consumes 1, case_names null stop aside step]:
  assumes w: "walkUp rnd st cur = Inr st'"
    and null: "\<And>st. body (document st) = None \<Longrightarrow> P st None st"
    and stop: "\<And>st cur. body (document st) = Some cur \<or> cur \<in> set (seenNodes st) \<Longrightarrow>
                 P st (Some cur) st"
    and aside: "\<And>st cur e. body (document st) \<noteq> Some cur \<Longrightarrow> cur \<notin> set (seenNodes st) \<Longrightarrow>
                 getElement (document st) cur = Some e \<Longrightarrow> isAsideEquivalent e = Inr True \<Longrightarrow>
                 P st (Some cur) (st\<lparr>seenNodes := seenNodes st @ [cur]\<rparr>)"
    and step: "\<And>st cur e st2 st'. body (document st) \<noteq> Some cur \<Longrightarrow>
                 cur \<notin> set (seenNodes st) \<Longrightarrow>
                 getElement (document st) cur = Some e \<Longrightarrow> isAsideEquivalent e = Inr False \<Longrightarrow>
                 processContainer rnd (st\<lparr>seenNodes := seenNodes st @ [cur]\<rparr>) cur e = Inr st2 \<Longrightarrow>
                 walkUp rnd st2 (parentElement e) = Inr st' \<Longrightarrow>
                 P st2 (parentElement e) st' \<Longrightarrow> P st (Some cur) st'"
  shows "P st cur st'"
proof -
  have "rnd' = rnd \<Longrightarrow> walkUp rnd' st cur = Inr st' \<Longrightarrow> P st cur st'" for rnd'
  proof (induction rnd' st cur arbitrary: st' rule: walkUp.induct)
    case (1 rnd' st)
    then have "body (document st) = None" "st' = st"
      by (auto simp: walkUp.simps split: if_splits)
    with null show ?case by simp
  next
    case (2 rnd' st currentElem)
    from "2.prems" have r: "rnd' = rnd" and res: "walkUp rnd st (Some currentElem) = Inr st'"
      by simp_all
    note IH = "2.IH" [unfolded r]
    show ?case
    proof (cases "body (document st) = Some currentElem \<or> currentElem \<in> set (seenNodes st)")
      case True
      with res have "st' = st" by (auto simp: walkUp_body walkUp_seen)
      with True stop show ?thesis by simp
    next
      case False
      then have c1: "body (document st) \<noteq> Some currentElem"
        and c2: "currentElem \<notin> set (seenNodes st)"
        by simp_all
      from c1 c2 res obtain e where e: "getElement (document st) currentElem = Some e"
        by (cases "getElement (document st) currentElem") (auto simp: walkUp_dangling)
      from c1 c2 e res obtain a where a: "isAsideEquivalent e = Inr a"
        by (cases "isAsideEquivalent e") (auto simp: walkUp_throws)
      let ?st1 = "st\<lparr>seenNodes := set_add (seenNodes st) currentElem\<rparr>"
      have st1: "?st1 = st\<lparr>seenNodes := seenNodes st @ [currentElem]\<rparr>"
        using c2 by (simp add: set_add_def)
      show ?thesis
      proof (cases a)
        case True
        with c1 c2 e a res have "st' = st\<lparr>seenNodes := seenNodes st @ [currentElem]\<rparr>"
          by (simp add: walkUp_aside)
        with aside [OF c1 c2 e] a True show ?thesis by simp
      next
        case na: False
        with c1 c2 e a res obtain st2 where
          st2: "processContainer rnd ?st1 currentElem e = Inr st2"
          and w2: "walkUp rnd st2 (parentElement e) = Inr st'"
          by (auto simp: walkUp_step st1 split: sum.splits)
        from c1 have c1': "Some currentElem \<noteq> body (document st)" by auto
        from na have na': "\<not> a" by simp
        have "P st2 (parentElement e) st'"
          using IH [OF c1' c2 e refl a na' st2 refl w2] .
        moreover have "isAsideEquivalent e = Inr False" using a na by simp
        moreover have "processContainer rnd (st\<lparr>seenNodes := seenNodes st @ [currentElem]\<rparr>)
                         currentElem e = Inr st2"
          using st2 st1 by simp
        ultimately show ?thesis using step [OF c1 c2 e _ _ w2] by blast
      qed
    qed
  qed
  with w show ?thesis by simp
qed

lemma walkUp_sameTree:
  "walkUp rnd st cur = Inr st' \<Longrightarrow> sameTree (document st) (document st')"
proof (induction rule: walkUp_Inr_induct)
  case (step st cur e st2 st')
  from processContainer_sameTree [OF step(5)] step(7) show ?case
    by (auto intro: sameTree_trans)
qed (simp_all add: sameTree_refl)

lemma walkUp_seen_grows:
  "walkUp rnd st cur = Inr st' \<Longrightarrow>
     set (seenNodes st) \<subseteq> set (seenNodes st')
     \<and> (\<forall>n. cur = Some n \<and> body (document st) \<noteq> Some n \<longrightarrow> n \<in> set (seenNodes st'))"
proof (induction rule: walkUp_Inr_induct)
  case (step st cur e st2 st')
  from processContainer_frame [OF step(5)] step(7) show ?case by auto
qed auto

lemma ancestorWithin_Suc_parent:
  assumes "ancestorWithin (Suc k) d (Element b) n"
  obtains e m where "getElement d n = Some e" "parentElement e = Some m"
    "m = b \<or> ancestorWithin k d (Element b) m"
  using assms
  by (auto simp: parentElement_def split: option.splits parent_ref.splits)

text \<open>
  On a document without SVG elements the loop, \<open>iterateParents\<close> and the whole
  traversal return a state, from every element whose parent chain reaches the body.
\<close>

lemma walkUp_reaches_body:
  "noSVG (document st) \<Longrightarrow> body (document st) = Some b \<Longrightarrow>
   n = b \<or> ancestorWithin k (document st) (Element b) n \<Longrightarrow>
     \<exists>st'. walkUp rnd st (Some n) = Inr st'"
proof (induction k arbitrary: st n)
  case 0
  then show ?case by (simp add: walkUp_body)
next
  case (Suc k)
  show ?case
  proof (cases "n = b \<or> n \<in> set (seenNodes st)")
    case True
    with Suc.prems(2) show ?thesis by (auto simp: walkUp_body walkUp_seen)
  next
    case False
    with Suc.prems have anc: "ancestorWithin (Suc k) (document st) (Element b) n"
      and nb: "body (document st) \<noteq> Some n" and ns: "n \<notin> set (seenNodes st)"
      by auto
    from anc obtain e m where e: "getElement (document st) n = Some e"
      and pm: "parentElement e = Some m"
      and m: "m = b \<or> ancestorWithin k (document st) (Element b) m"
      by (rule ancestorWithin_Suc_parent)
    from noSVG_getElement [OF Suc.prems(1) e] obtain a where a: "isAsideEquivalent e = Inr a"
      using isAsideEquivalent_defined by blast
    show ?thesis
    proof (cases a)
      case True
      with nb ns e a show ?thesis by (simp add: walkUp_aside)
    next
      case False
      let ?st1 = "st\<lparr>seenNodes := seenNodes st @ [n]\<rparr>"
      from e have "getElement (document ?st1) n = Some e" by simp
      then obtain st2 where st2: "processContainer rnd ?st1 n e = Inr st2"
        using processContainer_defined by blast
      then have same: "sameTree (document st) (document st2)"
        using processContainer_sameTree [OF st2] by simp
      from same Suc.prems(2) have b2: "body (document st2) = Some b"
        by (simp add: sameTree_body)
      from same Suc.prems(1) have s2: "noSVG (document st2)"
        by (simp add: sameTree_noSVG)
      from same m have m2: "m = b \<or> ancestorWithin k (document st2) (Element b) m"
        by (simp add: sameTree_ancestorWithin)
      from Suc.IH [OF s2 b2 m2] obtain st' where "walkUp rnd st2 (Some m) = Inr st'" ..
      with nb ns e a False st2 pm show ?thesis by (simp add: walkUp_step)
    qed
  qed
qed

lemma ancestorWithin_getElement:
  "ancestorWithin k d a n \<Longrightarrow> \<exists>e. getElement d n = Some e"
  by (cases k) (auto split: option.splits)

lemma find_upt_less: "List.find P [0..<m] = Some n \<Longrightarrow> n < m"
  by (auto simp: find_Some_iff)

lemma body_getElement: "body d = Some b \<Longrightarrow> \<exists>e. getElement d b = Some e"
  by (auto simp: body_def getElement_def split: option.splits dest: find_upt_less)

lemma iterateParents_reaches_body:
  assumes s: "noSVG (document st)" and b: "body (document st) = Some b"
    and n: "n = b \<or> ancestorWithin k (document st) (Element b) n"
  shows "\<exists>st'. iterateParents rnd st (Some n) = Inr st'"
proof (cases "n \<in> set (seenNodes st)")
  case True
  then show ?thesis by (simp add: iterateParents_def walkUp_seen)
next
  case False
  from b n obtain e where e: "getElement (document st) n = Some e"
    using body_getElement ancestorWithin_getElement by blast
  then obtain sel st1 where g: "getNodeSelector rnd st n = Inr (sel, st1)"
    using getNodeSelector_defined by blast
  let ?st2 = "st1\<lparr>containerSelectors := containerSelectors st1 @ [sel @ '' > p'']\<rparr>"
  from g have same: "sameTree (document st) (document ?st2)"
    using getNodeSelector_sameTree by fastforce
  from same b have b2: "body (document ?st2) = Some b" by (simp add: sameTree_body)
  from same s have s2: "noSVG (document ?st2)" by (simp add: sameTree_noSVG)
  from same n have n2: "n = b \<or> ancestorWithin k (document ?st2) (Element b) n"
    using sameTree_ancestorWithin [OF same] by simp
  from walkUp_reaches_body [OF s2 b2 n2] obtain st' where "walkUp rnd ?st2 (Some n) = Inr st'" ..
  with False g show ?thesis by (simp add: iterateParents_def)
qed

lemma iterateParents_sameTree:
  "iterateParents rnd st elem = Inr st' \<Longrightarrow> sameTree (document st) (document st')"
  by (auto simp: iterateParents_def split: option.splits if_splits sum.splits
           dest!: walkUp_sameTree getNodeSelector_sameTree intro: sameTree_trans)

lemma ancestorWithin_Suc_iff:
  "ancestorWithin (Suc k) d a n \<longleftrightarrow>
     (\<exists>e p. getElement d n = Some e \<and> parentNode e = Some p
            \<and> (p = a \<or> (\<exists>m. p = Element m \<and> ancestorWithin k d a m)))"
  by (auto split: option.splits parent_ref.splits)

lemma ancestorWithin_mono:
  "ancestorWithin k d a n \<Longrightarrow> ancestorWithin (Suc k) d a n"
proof (induction k arbitrary: n)
  case 0
  then show ?case by simp
next
  case (Suc k)
  from Suc.prems obtain e p where ep: "getElement d n = Some e" "parentNode e = Some p"
    "p = a \<or> (\<exists>m. p = Element m \<and> ancestorWithin k d a m)"
    unfolding ancestorWithin_Suc_iff by blast
  from ep(3) Suc.IH have "p = a \<or> (\<exists>m. p = Element m \<and> ancestorWithin (Suc k) d a m)"
    by blast
  with ep(1,2) show ?case
    unfolding ancestorWithin_Suc_iff [of "Suc k"] by blast
qed

lemma descendant_parent:
  assumes "isDescendant d b n" "getElement d n = Some e"
  shows "\<exists>m. parentElement e = Some m \<and> (m = b \<or> isDescendant d b m)"
proof (cases "length d")
  case 0
  with assms show ?thesis by (simp add: isDescendant_def)
next
  case (Suc k)
  with assms(1) have "ancestorWithin (Suc k) d (Element b) n" by (simp add: isDescendant_def)
  then obtain e' m where "getElement d n = Some e'" "parentElement e' = Some m"
    "m = b \<or> ancestorWithin k d (Element b) m"
    by (rule ancestorWithin_Suc_parent)
  with assms(2) Suc show ?thesis
    using ancestorWithin_mono [of k d "Element b" m] by (auto simp: isDescendant_def)
qed

lemma forEachParagraph_completes:
  "noSVG (document st) \<Longrightarrow> body (document st) = Some b \<Longrightarrow>
   \<forall>p \<in> set ps. isDescendant (document st) b p \<Longrightarrow>
     \<exists>st'. forEachParagraph rnd st ps = Inr st'"
proof (induction ps arbitrary: st)
  case Nil
  show ?case by simp
next
  case (Cons p ps)
  from Cons.prems have dp: "isDescendant (document st) b p" by simp
  then obtain e where e: "getElement (document st) p = Some e"
    using ancestorWithin_getElement unfolding isDescendant_def by blast
  show ?case
  proof (cases "\<not> isSVGElement e \<and> offsetHeight e = 0")
    case True
    with e Cons.IH [of st] Cons.prems show ?thesis by simp
  next
    case False
    from descendant_parent [OF dp e] obtain m where
      m: "parentElement e = Some m" "m = b \<or> isDescendant (document st) b m" by blast
    from iterateParents_reaches_body
           [OF Cons.prems(1) Cons.prems(2) m(2) [unfolded isDescendant_def]]
    obtain st1 where st1: "iterateParents rnd st (Some m) = Inr st1" ..
    then have same: "sameTree (document st) (document st1)" by (rule iterateParents_sameTree)
    with Cons.prems have "noSVG (document st1)" "body (document st1) = Some b"
      "\<forall>p \<in> set ps. isDescendant (document st1) b p"
      by (simp_all add: sameTree_body sameTree_isDescendant sameTree_noSVG)
    from Cons.IH [OF this] obtain st' where "forEachParagraph rnd st1 ps = Inr st'" ..
    with e False m(1) st1 show ?thesis by auto
  qed
qed

lemma iterateDOM_completes:
  assumes "noSVG d" "body d \<noteq> None"
  shows "\<exists>st'. iterateDOM rnd d = Inr st'"
proof -
  from assms(2) obtain b where b: "body d = Some b" by auto
  let ?st0 = "\<lparr>document = d, draws = 0, containerSelectors = [], overrideCssDeclarations = [],
                 backgroundColors = [], seenNodes = []\<rparr>"
  have "noSVG (document ?st0)" "body (document ?st0) = Some b" using b assms(1) by simp_all
  moreover have "\<forall>p \<in> set (querySelectorAll d b globalParagraphSelector).
                   isDescendant (document ?st0) b p"
    by (simp add: querySelectorAll_def)
  ultimately obtain st' where
    "forEachParagraph rnd ?st0 (querySelectorAll d b globalParagraphSelector) = Inr st'"
    using forEachParagraph_completes by blast
  with b show ?thesis by (simp add: iterateDOM_def not_NodeList_def)
qed

lemma getNodeSelector_keeps:
  "getNodeSelector rnd st n = Inr (sel, st') \<Longrightarrow>
     seenNodes st' = seenNodes st \<and> overrideCssDeclarations st' = overrideCssDeclarations st"
  by (auto simp: getNodeSelector_def Let_def split: option.splits)

lemma iterateParents_seen_grows:
  assumes "iterateParents rnd st elem = Inr st'"
  shows "set (seenNodes st) \<subseteq> set (seenNodes st')
     \<and> (\<forall>n. elem = Some n \<and> body (document st) \<noteq> Some n \<longrightarrow> n \<in> set (seenNodes st'))"
proof (cases elem)
  case None
  with assms show ?thesis by (simp add: iterateParents_def)
next
  case (Some n)
  show ?thesis
  proof (cases "n \<in> set (seenNodes st)")
    case True
    with assms Some show ?thesis
      using walkUp_seen_grows [of rnd st "Some n" st'] by (simp add: iterateParents_def)
  next
    case False
    with assms Some obtain sel st1 where g: "getNodeSelector rnd st n = Inr (sel, st1)"
      and w: "walkUp rnd (st1\<lparr>containerSelectors := containerSelectors st1 @ [sel @ '' > p'']\<rparr>)
                 (Some n) = Inr st'"
      by (auto simp: iterateParents_def split: sum.splits)
    from getNodeSelector_sameTree [OF g] have "body (document st1) = body (document st)"
      by (simp add: sameTree_body)
    with walkUp_seen_grows [OF w] getNodeSelector_keeps [OF g] Some show ?thesis by simp
  qed
qed

lemma str_includes_append: "str_includes s w \<Longrightarrow> str_includes (s @ t) w"
proof (induction s)
  case Nil
  then show ?case by (cases t) simp_all
next
  case (Cons c s)
  then show ?case by (cases "prefix w (c # s)") (auto intro: prefix_order.trans)
qed

lemma join_snoc: "join sep (xs @ [x]) = (if xs = [] then x else join sep xs @ sep @ x)"
  by (induction sep xs rule: join.induct) auto

lemma isAsideEquivalent_classList_add:
  assumes "isAsideEquivalent e = Inr True"
  shows "isAsideEquivalent (e\<lparr>classList := classList_add (classList e) c\<rparr>) = Inr True"
proof (cases "isSVGElement e")
  case True
  with assms show ?thesis by (simp add: isAsideEquivalent_svg split: if_splits)
next
  case False
  let ?e' = "e\<lparr>classList := classList_add (classList e) c\<rparr>"
  have "\<exists>t. className ?e' = className e @ t"
    by (cases "classList e = []") (auto simp: className_def classList_add_def join_snoc)
  then obtain t where t: "className ?e' = className e @ t" ..
  have "str_includes (toLowerCase (className e)) w
          \<Longrightarrow> str_includes (toLowerCase (className ?e')) w" for w
    by (simp add: t toLowerCase_def str_includes_append)
  with assms False show ?thesis
    by (auto simp: isAsideEquivalent_html hasAttribute_def list_ex_iff)
qed

lemma aside_walkUp:
  assumes "getElement (document st) cur = Some e" "isAsideEquivalent e = Inr True"
  shows "walkUp rnd st (Some cur) =
     Inr (if body (document st) = Some cur \<or> cur \<in> set (seenNodes st) then st
          else st\<lparr>seenNodes := seenNodes st @ [cur]\<rparr>)"
  using assms by (auto simp: walkUp_body walkUp_seen walkUp_aside)

lemma aside_iterateParents:
  assumes e: "getElement (document st) cur = Some e" and a: "isAsideEquivalent e = Inr True"
    and ns: "cur \<notin> set (seenNodes st)" and nb: "body (document st) \<noteq> Some cur"
    and g: "getNodeSelector rnd st cur = Inr (sel, st1)"
  shows "iterateParents rnd st (Some cur) =
     Inr (st1\<lparr>containerSelectors := containerSelectors st1 @ [sel @ '' > p''],
              seenNodes := seenNodes st1 @ [cur]\<rparr>)"
proof -
  let ?st2 = "st1\<lparr>containerSelectors := containerSelectors st1 @ [sel @ '' > p'']\<rparr>"
  from e have lt: "cur < length (document st)" by (simp add: getElement_def split: if_splits)
  from g e lt have e1: "getElement (document ?st2) cur
      = Some (e\<lparr>classList := classList_add (classList e) (''container_'' @ rnd (draws st))\<rparr>)"
    by (auto simp: getNodeSelector_def Let_def getElement_def)
  from getNodeSelector_sameTree [OF g] nb have nb2: "body (document ?st2) \<noteq> Some cur"
    by (simp add: sameTree_body)
  from getNodeSelector_keeps [OF g] ns have ns2: "cur \<notin> set (seenNodes ?st2)" by simp
  have "walkUp rnd ?st2 (Some cur) = Inr (?st2\<lparr>seenNodes := seenNodes ?st2 @ [cur]\<rparr>)"
    using walkUp_aside [OF nb2 ns2 e1 isAsideEquivalent_classList_add [OF a]] .
  with ns g show ?thesis by (simp add: iterateParents_def)
qed

section \<open>Lemmas on the generated selectors\<close>

lemma walkUpLog_stop:
  "body (document st) = Some cur \<or> cur \<in> set (seenNodes st) \<Longrightarrow> walkUpLog rnd st (Some cur) = []"
  by (subst walkUpLog.simps) auto

lemma walkUpLog_aside:
  "getElement (document st) cur = Some e \<Longrightarrow> isAsideEquivalent e = Inr True \<Longrightarrow>
     walkUpLog rnd st (Some cur) = []"
  by (subst walkUpLog.simps) auto

lemma walkUpLog_step:
  assumes "body (document st) \<noteq> Some cur" "cur \<notin> set (seenNodes st)"
    "getElement (document st) cur = Some e" "isAsideEquivalent e = Inr False"
    "processContainer rnd (st\<lparr>seenNodes := seenNodes st @ [cur]\<rparr>) cur e = Inr st2"
    "getNodeSelector rnd (st\<lparr>seenNodes := seenNodes st @ [cur]\<rparr>) cur = Inr (sel, st1)"
  shows "walkUpLog rnd st (Some cur) = Container cur sel # walkUpLog rnd st2 (parentElement e)"
  using assms by (subst walkUpLog.simps) (auto simp: set_add_def)

lemma processContainer_selector:
  assumes "processContainer rnd st cur e = Inr st2"
  obtains sel st1 where "getNodeSelector rnd st cur = Inr (sel, st1)"
    "containerSelectors st2 = containerSelectors st @ [sel]"
    "overrideCssDeclarations st2
       = overrideCssDeclarations st @ getNodeOverrideStyles sel (computedStyle e)"
    "seenNodes st2 = seenNodes st"
  using assms
  by (auto simp: processContainer_def Let_def getNodeSelector_def
           split: sum.splits option.splits if_splits)

lemma sameTree_ruleOf: "sameTree d d' \<Longrightarrow> ruleOf d' g = ruleOf d g"
  by (cases g) (auto simp: sameTree_def getElement_def)

lemma walkUp_log:
  assumes "walkUp rnd st cur = Inr st'"
  shows "containerSelectors st' = containerSelectors st @ map pushedText (walkUpLog rnd st cur)
     \<and> overrideCssDeclarations st'
         = overrideCssDeclarations st @ concat (map (ruleOf (document st)) (walkUpLog rnd st cur))
     \<and> distinct (containerNodes (walkUpLog rnd st cur))
     \<and> set (containerNodes (walkUpLog rnd st cur)) \<inter> set (seenNodes st) = {}
     \<and> set (containerNodes (walkUpLog rnd st cur)) \<subseteq> set (seenNodes st')
     \<and> paragraphParents (walkUpLog rnd st cur) = []
     \<and> set (containerNodes (walkUpLog rnd st cur)) \<subseteq> {..<length (document st)}"
  using assms
proof (induction rule: walkUp_Inr_induct)
  case (null st)
  show ?case by (simp add: walkUpLog.simps)
next
  case (stop st cur)
  then show ?case by (simp add: walkUpLog_stop)
next
  case (aside st cur e)
  then show ?case by (simp add: walkUpLog_aside)
next
  case (step st cur e st2 st')
  let ?st1 = "st\<lparr>seenNodes := seenNodes st @ [cur]\<rparr>"
  from step(5) obtain sel st1 where g: "getNodeSelector rnd ?st1 cur = Inr (sel, st1)"
    and cs: "containerSelectors st2 = containerSelectors ?st1 @ [sel]"
    and ov: "overrideCssDeclarations st2
       = overrideCssDeclarations ?st1 @ getNodeOverrideStyles sel (computedStyle e)"
    and sn: "seenNodes st2 = seenNodes ?st1"
    by (rule processContainer_selector)
  have L: "walkUpLog rnd st (Some cur) = Container cur sel # walkUpLog rnd st2 (parentElement e)"
    using step(1-5) g by (rule walkUpLog_step)
  from processContainer_sameTree [OF step(5)]
  have same: "sameTree (document st) (document st2)" by simp
  then have len: "length (document st2) = length (document st)" by (simp add: sameTree_def)
  from step(3) have lt: "cur < length (document st)"
    by (simp add: getElement_def split: if_splits)
  from step(7) same have IH:
    "containerSelectors st' = containerSelectors st2 @ map pushedText (walkUpLog rnd st2 (parentElement e))"
    "overrideCssDeclarations st' = overrideCssDeclarations st2
        @ concat (map (ruleOf (document st)) (walkUpLog rnd st2 (parentElement e)))"
    "distinct (containerNodes (walkUpLog rnd st2 (parentElement e)))"
    "set (containerNodes (walkUpLog rnd st2 (parentElement e))) \<inter> set (seenNodes st2) = {}"
    "set (containerNodes (walkUpLog rnd st2 (parentElement e))) \<subseteq> set (seenNodes st')"
    "paragraphParents (walkUpLog rnd st2 (parentElement e)) = []"
    "set (containerNodes (walkUpLog rnd st2 (parentElement e))) \<subseteq> {..<length (document st)}"
    by (simp_all add: sameTree_ruleOf len)
  from walkUp_seen_grows [OF step(6)] sn have seen: "cur \<in> set (seenNodes st')" by auto
  from IH(4) sn have nc: "cur \<notin> set (containerNodes (walkUpLog rnd st2 (parentElement e)))"
    and disj: "set (containerNodes (walkUpLog rnd st2 (parentElement e))) \<inter> set (seenNodes st) = {}"
    by auto
  show ?case
    unfolding L using IH cs ov step(2,3) seen nc disj lt by simp
qed

lemma getNodeSelector_staysAside:
  assumes "getNodeSelector rnd st m = Inr (sel, st1)"
  shows "staysAside (document st) (document st1)"
  unfolding staysAside_def
proof (intro allI impI)
  fix n
  assume a: "isAsideEquivalent (document st ! n) = Inr True"
  from assms obtain e where e: "getElement (document st) m = Some e"
    and d: "document st1 = (document st)[m := e\<lparr>classList :=
              classList_add (classList e) (''container_'' @ rnd (draws st))\<rparr>]"
    by (auto simp: getNodeSelector_def Let_def split: option.splits)
  from e have lt: "m < length (document st)" and em: "e = document st ! m"
    by (auto simp: getElement_def split: if_splits)
  show "isAsideEquivalent (document st1 ! n) = Inr True"
  proof (cases "n = m")
    case True
    with a em have "isAsideEquivalent e = Inr True" by simp
    from isAsideEquivalent_classList_add [OF this] d lt True show ?thesis by simp
  next
    case False
    with a d show ?thesis by simp
  qed
qed

lemma staysAside_refl: "staysAside d d"
  by (simp add: staysAside_def)

lemma staysAside_trans: "staysAside d d' \<Longrightarrow> staysAside d' d'' \<Longrightarrow> staysAside d d''"
  by (simp add: staysAside_def)

lemma processContainer_staysAside:
  "processContainer rnd st m e = Inr st2 \<Longrightarrow> staysAside (document st) (document st2)"
  by (auto simp: processContainer_def Let_def split: sum.splits if_splits
           dest: getNodeSelector_staysAside)

lemma walkUp_staysAside:
  assumes "walkUp rnd st cur = Inr st'"
  shows "staysAside (document st) (document st')"
  using assms
proof (induction rule: walkUp_Inr_induct)
  case (step st cur e st2 st')
  from processContainer_staysAside [OF step(5)] step(7) show ?case
    by (auto intro: staysAside_trans)
qed (simp_all add: staysAside_refl)

lemma iterateParents_staysAside:
  "iterateParents rnd st elem = Inr st' \<Longrightarrow> staysAside (document st) (document st')"
  by (auto simp: iterateParents_def split: option.splits if_splits sum.splits
           dest!: walkUp_staysAside getNodeSelector_staysAside intro: staysAside_trans)

lemma sameTree_parentElement:
  "sameTree d d' \<Longrightarrow> getElement d' n = Some e' \<Longrightarrow>
     \<exists>e. getElement d n = Some e \<and> parentElement e = parentElement e'"
  by (auto simp: sameTree_def getElement_def parentElement_def split: if_splits)

lemma chainsClosed_transfer:
  assumes c: "chainsClosed st C cur"
    and same: "sameTree (document st) (document st')"
    and aside: "staysAside (document st) (document st')"
    and seen: "seenNodes st' = seenNodes st"
  shows "chainsClosed st' C cur"
  unfolding chainsClosed_def
proof (intro ballI)
  fix n
  assume "n \<in> set (seenNodes st')"
  with seen have n: "n \<in> set (seenNodes st)" by simp
  from c n have "isAsideEquivalent (document st ! n) = Inr True
        \<or> (n \<in> C
            \<and> (\<forall>e m. getElement (document st) n = Some e \<longrightarrow> parentElement e = Some m \<longrightarrow>
                  body (document st) = Some m \<or> m \<in> set (seenNodes st) \<or> cur = Some m))"
    by (simp add: chainsClosed_def)
  then show "isAsideEquivalent (document st' ! n) = Inr True
        \<or> (n \<in> C
            \<and> (\<forall>e m. getElement (document st') n = Some e \<longrightarrow> parentElement e = Some m \<longrightarrow>
                  body (document st') = Some m \<or> m \<in> set (seenNodes st') \<or> cur = Some m))"
  proof
    assume "isAsideEquivalent (document st ! n) = Inr True"
    with aside show ?thesis by (simp add: staysAside_def)
  next
    assume r: "n \<in> C
            \<and> (\<forall>e m. getElement (document st) n = Some e \<longrightarrow> parentElement e = Some m \<longrightarrow>
                  body (document st) = Some m \<or> m \<in> set (seenNodes st) \<or> cur = Some m)"
    have "\<forall>e m. getElement (document st') n = Some e \<longrightarrow> parentElement e = Some m \<longrightarrow>
                  body (document st') = Some m \<or> m \<in> set (seenNodes st') \<or> cur = Some m"
    proof (intro allI impI)
      fix e' m
      assume "getElement (document st') n = Some e'" "parentElement e' = Some m"
      with sameTree_parentElement [OF same] obtain e where
        "getElement (document st) n = Some e" "parentElement e = Some m" by metis
      with r have "body (document st) = Some m \<or> m \<in> set (seenNodes st) \<or> cur = Some m" by blast
      with seen sameTree_body [OF same]
      show "body (document st') = Some m \<or> m \<in> set (seenNodes st') \<or> cur = Some m" by simp
    qed
    with r show ?thesis by blast
  qed
qed

lemma walkUp_chainsClosed:
  assumes "walkUp rnd st cur = Inr st'"
  shows "chainsClosed st C cur \<Longrightarrow>
           chainsClosed st' (C \<union> set (containerNodes (walkUpLog rnd st cur))) None"
  using assms
proof (induction arbitrary: C rule: walkUp_Inr_induct)
  case (null st)
  then show ?case by (simp add: walkUpLog.simps)
next
  case (stop st cur)
  from stop(2) stop(1) show ?case
    unfolding chainsClosed_def walkUpLog_stop [OF stop(1)] by auto
next
  case (aside st cur e)
  from aside(3) have ecur: "document st ! cur = e"
    by (simp add: getElement_def split: if_splits)
  from aside(5) aside(4) ecur show ?case
    unfolding chainsClosed_def walkUpLog_aside [OF aside(3,4)] by auto
next
  case (step st cur e st2 st')
  let ?st1 = "st\<lparr>seenNodes := seenNodes st @ [cur]\<rparr>"
  from step(5) obtain sel st1 where g: "getNodeSelector rnd ?st1 cur = Inr (sel, st1)"
    and sn: "seenNodes st2 = seenNodes ?st1"
    by (rule processContainer_selector)
  have L: "walkUpLog rnd st (Some cur) = Container cur sel # walkUpLog rnd st2 (parentElement e)"
    using step(1-5) g by (rule walkUpLog_step)
  have c1: "chainsClosed ?st1 (insert cur C) (parentElement e)"
    unfolding chainsClosed_def
  proof (intro ballI)
    fix n
    assume "n \<in> set (seenNodes ?st1)"
    then have "n = cur \<or> n \<in> set (seenNodes st)" by auto
    then show "isAsideEquivalent (document ?st1 ! n) = Inr True
        \<or> (n \<in> insert cur C
            \<and> (\<forall>e' m. getElement (document ?st1) n = Some e' \<longrightarrow> parentElement e' = Some m \<longrightarrow>
                  body (document ?st1) = Some m \<or> m \<in> set (seenNodes ?st1)
                  \<or> parentElement e = Some m))"
    proof
      assume "n = cur"
      with step(3) show ?thesis by auto
    next
      assume "n \<in> set (seenNodes st)"
      with step(8) show ?thesis unfolding chainsClosed_def by fastforce
    qed
  qed
  have "chainsClosed st2 (insert cur C) (parentElement e)"
    using c1
  proof (rule chainsClosed_transfer)
    show "sameTree (document ?st1) (document st2)" using processContainer_sameTree [OF step(5)] .
    show "staysAside (document ?st1) (document st2)" using processContainer_staysAside [OF step(5)] .
    show "seenNodes st2 = seenNodes ?st1" by (rule sn)
  qed
  from step(7) [OF this] show ?case unfolding L by simp
qed

lemma containerNodes_append:
  "containerNodes (xs @ ys) = containerNodes xs @ containerNodes ys"
  by (induction xs rule: containerNodes.induct) simp_all

lemma paragraphParents_append:
  "paragraphParents (xs @ ys) = paragraphParents xs @ paragraphParents ys"
  by (induction xs rule: paragraphParents.induct) simp_all

lemma sameTree_sym: "sameTree d d' \<Longrightarrow> sameTree d' d"
  by (simp add: sameTree_def)

lemma sameTree_visible:
  "sameTree d d' \<Longrightarrow> getElement d n = Some e \<Longrightarrow>
     \<exists>e'. getElement d' n = Some e' \<and> parentElement e' = parentElement e
          \<and> isSVGElement e' = isSVGElement e \<and> offsetHeight e' = offsetHeight e"
  by (auto simp: sameTree_def getElement_def parentElement_def split: if_splits)

lemma sameTree_ruleOf_fun: "sameTree d d' \<Longrightarrow> ruleOf d' = ruleOf d"
  by (rule ext) (rule sameTree_ruleOf)

lemma getNodeSelector_length:
  "getNodeSelector rnd st n = Inr (sel, st1) \<Longrightarrow> n < length (document st)"
  by (auto simp: getNodeSelector_def getElement_def split: option.splits if_splits)

lemma iterateParents_log:
  assumes "iterateParents rnd st elem = Inr st'"
  shows "containerSelectors st' = containerSelectors st @ map pushedText (iterateParentsLog rnd st elem)
     \<and> overrideCssDeclarations st'
         = overrideCssDeclarations st
           @ concat (map (ruleOf (document st)) (iterateParentsLog rnd st elem))
     \<and> distinct (containerNodes (iterateParentsLog rnd st elem))
     \<and> set (containerNodes (iterateParentsLog rnd st elem)) \<inter> set (seenNodes st) = {}
     \<and> set (containerNodes (iterateParentsLog rnd st elem)) \<subseteq> set (seenNodes st')
     \<and> distinct (paragraphParents (iterateParentsLog rnd st elem))
     \<and> set (paragraphParents (iterateParentsLog rnd st elem)) \<inter> set (seenNodes st) = {}
     \<and> set (filter (\<lambda>n. body (document st) \<noteq> Some n)
               (paragraphParents (iterateParentsLog rnd st elem))) \<subseteq> set (seenNodes st')
     \<and> set (containerNodes (iterateParentsLog rnd st elem)) \<subseteq> {..<length (document st)}"
proof (cases elem)
  case None
  with assms show ?thesis by (simp add: iterateParents_def)
next
  case (Some n)
  show ?thesis
  proof (cases "n \<in> set (seenNodes st)")
    case True
    with assms Some have "st' = st" by (simp add: iterateParents_def walkUp_seen)
    moreover from True Some have "iterateParentsLog rnd st elem = []"
      by (simp add: iterateParentsLog_def walkUpLog_stop)
    ultimately show ?thesis by simp
  next
    case False
    with assms Some obtain sel st1 where g: "getNodeSelector rnd st n = Inr (sel, st1)"
      and w: "walkUp rnd (st1\<lparr>containerSelectors := containerSelectors st1 @ [sel @ '' > p'']\<rparr>)
                 (Some n) = Inr st'"
      by (auto simp: iterateParents_def split: sum.splits)
    let ?st2 = "st1\<lparr>containerSelectors := containerSelectors st1 @ [sel @ '' > p'']\<rparr>"
    let ?W = "walkUpLog rnd ?st2 (Some n)"
    have L: "iterateParentsLog rnd st elem = ParagraphChild n sel # ?W"
      using False Some g by (simp add: iterateParentsLog_def)
    from getNodeSelector_sameTree [OF g] have same: "sameTree (document st) (document ?st2)" by simp
    from getNodeSelector_keeps [OF g] have k: "seenNodes st1 = seenNodes st"
      "overrideCssDeclarations st1 = overrideCssDeclarations st" by simp_all
    from g have cs: "containerSelectors st1 = containerSelectors st"
      by (auto simp: getNodeSelector_def Let_def split: option.splits)
    from same have rf: "ruleOf (document st1) = ruleOf (document st)"
      using sameTree_ruleOf_fun [of "document st" "document st1"] by simp
    from getNodeSelector_frame [OF g] have len: "length (document st1) = length (document st)"
      by simp
    from walkUp_log [OF w] k cs rf len
    have W: "containerSelectors st' = (containerSelectors st @ [sel @ '' > p'']) @ map pushedText ?W"
      "overrideCssDeclarations st' = overrideCssDeclarations st
          @ concat (map (ruleOf (document st)) ?W)"
      "distinct (containerNodes ?W)"
      "set (containerNodes ?W) \<inter> set (seenNodes st) = {}"
      "set (containerNodes ?W) \<subseteq> set (seenNodes st')"
      "paragraphParents ?W = []"
      "set (containerNodes ?W) \<subseteq> {..<length (document st)}"
      by simp_all
    from walkUp_seen_grows [OF w] sameTree_body [OF same]
    have "body (document st) \<noteq> Some n \<longrightarrow> n \<in> set (seenNodes st')" by simp
    with W False show ?thesis unfolding L by simp
  qed
qed

lemma forEachParagraph_log:
  "forEachParagraph rnd st ps = Inr st' \<Longrightarrow>
     containerSelectors st' = containerSelectors st @ map pushedText (forEachParagraphLog rnd st ps)
     \<and> overrideCssDeclarations st'
         = overrideCssDeclarations st
           @ concat (map (ruleOf (document st)) (forEachParagraphLog rnd st ps))
     \<and> distinct (containerNodes (forEachParagraphLog rnd st ps))
     \<and> set (containerNodes (forEachParagraphLog rnd st ps)) \<inter> set (seenNodes st) = {}
     \<and> set (containerNodes (forEachParagraphLog rnd st ps)) \<subseteq> set (seenNodes st')
     \<and> distinct (filter (\<lambda>n. body (document st) \<noteq> Some n)
                   (paragraphParents (forEachParagraphLog rnd st ps)))
     \<and> set (paragraphParents (forEachParagraphLog rnd st ps)) \<inter> set (seenNodes st) = {}
     \<and> set (filter (\<lambda>n. body (document st) \<noteq> Some n)
               (paragraphParents (forEachParagraphLog rnd st ps))) \<subseteq> set (seenNodes st')
     \<and> set (seenNodes st) \<subseteq> set (seenNodes st')
     \<and> sameTree (document st) (document st')
     \<and> set (containerNodes (forEachParagraphLog rnd st ps)) \<subseteq> {..<length (document st)}"
proof (induction ps arbitrary: st)
  case Nil
  then show ?case by (simp add: sameTree_refl)
next
  case (Cons p ps)
  from Cons.prems obtain e where e: "getElement (document st) p = Some e"
    by (auto split: option.splits)
  show ?case
  proof (cases "\<not> isSVGElement e \<and> offsetHeight e = 0")
    case True
    with Cons.prems e have "forEachParagraph rnd st ps = Inr st'" by simp
    from Cons.IH [OF this] True e show ?thesis by simp
  next
    case False
    with Cons.prems e obtain st1 where i: "iterateParents rnd st (parentElement e) = Inr st1"
      and f: "forEachParagraph rnd st1 ps = Inr st'"
      by (auto split: sum.splits)
    let ?A = "iterateParentsLog rnd st (parentElement e)"
    let ?B = "forEachParagraphLog rnd st1 ps"
    have L: "forEachParagraphLog rnd st (p # ps) = ?A @ ?B"
      using e False i by auto
    from iterateParents_sameTree [OF i] have same: "sameTree (document st) (document st1)" .
    then have b: "body (document st1) = body (document st)" by (rule sameTree_body)
    from iterateParents_seen_grows [OF i] have g1: "set (seenNodes st) \<subseteq> set (seenNodes st1)"
      by simp
    note A = iterateParents_log [OF i]
    from same have len: "length (document st1) = length (document st)" by (simp add: sameTree_def)
    note B = Cons.IH [OF f, unfolded b sameTree_ruleOf_fun [OF same] len]
    from A B have cs: "containerSelectors st' = containerSelectors st @ map pushedText (?A @ ?B)"
      by simp
    from A B have ov: "overrideCssDeclarations st'
         = overrideCssDeclarations st @ concat (map (ruleOf (document st)) (?A @ ?B))"
      by simp
    from A B g1 have dc: "distinct (containerNodes (?A @ ?B))"
      "set (containerNodes (?A @ ?B)) \<inter> set (seenNodes st) = {}"
      "set (containerNodes (?A @ ?B)) \<subseteq> set (seenNodes st')"
      unfolding containerNodes_append by auto
    from A B g1 have dp: "distinct (filter (\<lambda>n. body (document st) \<noteq> Some n)
                   (paragraphParents (?A @ ?B)))"
      "set (paragraphParents (?A @ ?B)) \<inter> set (seenNodes st) = {}"
      "set (filter (\<lambda>n. body (document st) \<noteq> Some n)
               (paragraphParents (?A @ ?B))) \<subseteq> set (seenNodes st')"
      unfolding paragraphParents_append by auto
    from B g1 have sg: "set (seenNodes st) \<subseteq> set (seenNodes st')" by auto
    from B same have st: "sameTree (document st) (document st')" by (auto intro: sameTree_trans)
    from A B have lt: "set (containerNodes (?A @ ?B)) \<subseteq> {..<length (document st)}"
      unfolding containerNodes_append by simp
    from cs ov dc dp sg st lt show ?thesis unfolding L by blast
  qed
qed

lemma chainsClosed_weaken: "chainsClosed st C None \<Longrightarrow> chainsClosed st C cur"
  unfolding chainsClosed_def by blast

lemma iterateParents_chainsClosed:
  assumes i: "iterateParents rnd st elem = Inr st'" and c: "chainsClosed st C None"
  shows "chainsClosed st' (C \<union> set (containerNodes (iterateParentsLog rnd st elem))) None"
proof (cases elem)
  case None
  with i show ?thesis by (simp add: iterateParents_def)
next
  case (Some n)
  show ?thesis
  proof (cases "n \<in> set (seenNodes st)")
    case True
    with i Some have "st' = st" by (simp add: iterateParents_def walkUp_seen)
    moreover from True Some have "iterateParentsLog rnd st elem = []"
      by (simp add: iterateParentsLog_def walkUpLog_stop)
    ultimately show ?thesis using c by simp
  next
    case False
    with i Some obtain sel st1 where g: "getNodeSelector rnd st n = Inr (sel, st1)"
      and w: "walkUp rnd (st1\<lparr>containerSelectors := containerSelectors st1 @ [sel @ '' > p'']\<rparr>)
                 (Some n) = Inr st'"
      by (auto simp: iterateParents_def split: sum.splits)
    let ?st2 = "st1\<lparr>containerSelectors := containerSelectors st1 @ [sel @ '' > p'']\<rparr>"
    have L: "iterateParentsLog rnd st elem = ParagraphChild n sel # walkUpLog rnd ?st2 (Some n)"
      using False Some g by (simp add: iterateParentsLog_def)
    have "chainsClosed ?st2 C None"
      using c
    proof (rule chainsClosed_transfer)
      show "sameTree (document st) (document ?st2)" using getNodeSelector_sameTree [OF g] by simp
      show "staysAside (document st) (document ?st2)" using getNodeSelector_staysAside [OF g] by simp
      show "seenNodes ?st2 = seenNodes st" using getNodeSelector_keeps [OF g] by simp
    qed
    then have "chainsClosed ?st2 C (Some n)" by (rule chainsClosed_weaken)
    from walkUp_chainsClosed [OF w this] show ?thesis unfolding L by simp
  qed
qed

lemma forEachParagraph_chainsClosed:
  "forEachParagraph rnd st ps = Inr st' \<Longrightarrow> chainsClosed st C None \<Longrightarrow>
     chainsClosed st' (C \<union> set (containerNodes (forEachParagraphLog rnd st ps))) None
     \<and> (\<forall>p \<in> set ps. \<forall>e m. getElement (document st) p = Some e
            \<and> \<not> (\<not> isSVGElement e \<and> offsetHeight e = 0) \<and> parentElement e = Some m
          \<longrightarrow> body (document st) = Some m \<or> m \<in> set (seenNodes st'))"
proof (induction ps arbitrary: st C)
  case Nil
  then show ?case by simp
next
  case (Cons p ps)
  from Cons.prems obtain e where e: "getElement (document st) p = Some e"
    by (auto split: option.splits)
  show ?case
  proof (cases "\<not> isSVGElement e \<and> offsetHeight e = 0")
    case True
    with Cons.prems e have f: "forEachParagraph rnd st ps = Inr st'" by simp
    from Cons.IH [OF f Cons.prems(2)] True e show ?thesis by auto
  next
    case False
    with Cons.prems e obtain st1 where i: "iterateParents rnd st (parentElement e) = Inr st1"
      and f: "forEachParagraph rnd st1 ps = Inr st'"
      by (auto split: sum.splits)
    let ?A = "iterateParentsLog rnd st (parentElement e)"
    let ?B = "forEachParagraphLog rnd st1 ps"
    have L: "forEachParagraphLog rnd st (p # ps) = ?A @ ?B"
      using e False i by auto
    from iterateParents_sameTree [OF i] have same: "sameTree (document st) (document st1)" .
    then have b: "body (document st1) = body (document st)" by (rule sameTree_body)
    from iterateParents_chainsClosed [OF i Cons.prems(2)]
    have c1: "chainsClosed st1 (C \<union> set (containerNodes ?A)) None" .
    note r = Cons.IH [OF f c1]
    from r [THEN conjunct1]
    have c2: "chainsClosed st' (C \<union> set (containerNodes ?A) \<union> set (containerNodes ?B)) None" .
    from r [THEN conjunct2]
    have v2: "\<forall>p \<in> set ps. \<forall>e m. getElement (document st1) p = Some e
            \<and> \<not> (\<not> isSVGElement e \<and> offsetHeight e = 0) \<and> parentElement e = Some m
          \<longrightarrow> body (document st1) = Some m \<or> m \<in> set (seenNodes st')" .
    from forEachParagraph_log [OF f] have g2: "set (seenNodes st1) \<subseteq> set (seenNodes st')" by simp
    have v: "\<forall>q \<in> set (p # ps). \<forall>e m. getElement (document st) q = Some e
            \<and> \<not> (\<not> isSVGElement e \<and> offsetHeight e = 0) \<and> parentElement e = Some m
          \<longrightarrow> body (document st) = Some m \<or> m \<in> set (seenNodes st')"
    proof (intro ballI allI impI)
      fix q e0 m
      assume q: "q \<in> set (p # ps)"
        and h: "getElement (document st) q = Some e0
            \<and> \<not> (\<not> isSVGElement e0 \<and> offsetHeight e0 = 0) \<and> parentElement e0 = Some m"
      from q have "q = p \<or> q \<in> set ps" by simp
      then show "body (document st) = Some m \<or> m \<in> set (seenNodes st')"
      proof
        assume "q = p"
        with h e have pm: "parentElement e = Some m" by simp
        from iterateParents_seen_grows [OF i] pm
        have "body (document st) \<noteq> Some m \<longrightarrow> m \<in> set (seenNodes st1)" by simp
        with g2 show ?thesis by auto
      next
        assume qs: "q \<in> set ps"
        from h sameTree_visible [OF same, of q e0] obtain e1 where
          "getElement (document st1) q = Some e1" "parentElement e1 = Some m"
          "\<not> (\<not> isSVGElement e1 \<and> offsetHeight e1 = 0)"
          by auto
        with v2 qs have "body (document st1) = Some m \<or> m \<in> set (seenNodes st')" by blast
        with b show ?thesis by simp
      qed
    qed
    from c2 have "chainsClosed st' (C \<union> set (containerNodes (?A @ ?B))) None"
      by (simp add: containerNodes_append Un_assoc)
    with v show ?thesis unfolding L by blast
  qed
qed

lemma chain_processed:
  assumes inv: "chainsClosed final C None" and same: "sameTree d (document final)"
  shows "m \<in> set (seenNodes final) \<Longrightarrow>
         \<forall>n \<in> set (parentChain d k m).
            body d \<noteq> Some n \<and> isAsideEquivalent (document final ! n) = Inr False \<Longrightarrow>
         set (parentChain d k m) \<subseteq> C"
proof (induction k arbitrary: m)
  case 0
  with inv show ?case by (auto simp: chainsClosed_def)
next
  case (Suc k)
  from Suc.prems have na: "isAsideEquivalent (document final ! m) = Inr False" by simp
  with inv Suc.prems(1) have mC: "m \<in> C"
    and par: "\<forall>e m'. getElement (document final) m = Some e \<longrightarrow> parentElement e = Some m' \<longrightarrow>
                  body (document final) = Some m' \<or> m' \<in> set (seenNodes final)"
    by (auto simp: chainsClosed_def)
  show ?case
  proof (cases "getElement d m")
    case None
    with mC show ?thesis by simp
  next
    case (Some e)
    show ?thesis
    proof (cases "parentElement e")
      case None
      with Some mC show ?thesis by simp
    next
      case m': (Some m')
      from sameTree_visible [OF same Some] m' obtain e' where
        "getElement (document final) m = Some e'" "parentElement e' = Some m'" by auto
      with par have "body (document final) = Some m' \<or> m' \<in> set (seenNodes final)" by blast
      moreover from Suc.prems(2) Some m' have sub: "\<forall>n \<in> set (parentChain d k m').
            body d \<noteq> Some n \<and> isAsideEquivalent (document final ! n) = Inr False"
        by simp
      moreover have "m' \<in> set (parentChain d k m')" by (cases k) simp_all
      ultimately have "m' \<in> set (seenNodes final)"
        using sameTree_body [OF same] by auto
      from Suc.IH [OF this sub] Some m' mC show ?thesis by simp
    qed
  qed
qed

lemma iterateDOM_log:
  assumes "iterateDOM rnd d = Inr final"
  shows "containerSelectors final = map pushedText (iterateDOMLog rnd d)"
    and "overrideCssDeclarations final = concat (map (ruleOf d) (iterateDOMLog rnd d))"
    and "distinct (containerNodes (iterateDOMLog rnd d))"
    and "distinct (filter (\<lambda>n. body d \<noteq> Some n) (paragraphParents (iterateDOMLog rnd d)))"
    and "set (containerNodes (iterateDOMLog rnd d)) \<subseteq> set (seenNodes final)"
    and "sameTree d (document final)"
    and "set (containerNodes (iterateDOMLog rnd d)) \<subseteq> {..<length d}"
proof -
  let ?st0 = "\<lparr>document = d, draws = 0, containerSelectors = [], overrideCssDeclarations = [],
                 backgroundColors = [], seenNodes = []\<rparr>"
  from assms obtain b where b: "body d = Some b"
    and f: "forEachParagraph rnd ?st0 (querySelectorAll d b globalParagraphSelector) = Inr final"
    by (auto simp: iterateDOM_def not_NodeList_def split: option.splits)
  have L: "iterateDOMLog rnd d
           = forEachParagraphLog rnd ?st0 (querySelectorAll d b globalParagraphSelector)"
    using b by (simp add: iterateDOMLog_def not_NodeList_def)
  note F = forEachParagraph_log [OF f]
  from F show "containerSelectors final = map pushedText (iterateDOMLog rnd d)"
    unfolding L by simp
  from F show "overrideCssDeclarations final = concat (map (ruleOf d) (iterateDOMLog rnd d))"
    unfolding L by simp
  from F show "distinct (containerNodes (iterateDOMLog rnd d))" unfolding L by simp
  from F show "distinct (filter (\<lambda>n. body d \<noteq> Some n) (paragraphParents (iterateDOMLog rnd d)))"
    unfolding L by simp
  from F show "set (containerNodes (iterateDOMLog rnd d)) \<subseteq> set (seenNodes final)"
    unfolding L by simp
  from F show "sameTree d (document final)" by simp
  from F show "set (containerNodes (iterateDOMLog rnd d)) \<subseteq> {..<length d}"
    unfolding L by simp
qed

lemma Container_containerNodes:
  "Container n sel \<in> set gs \<Longrightarrow> n \<in> set (containerNodes gs)"
  by (induction gs rule: containerNodes.induct) auto

lemma ruleOf_length:
  "n < length d \<Longrightarrow>
     length (ruleOf d (Container n sel))
       = (if display (computedStyle (d ! n)) = ''flex''
               \<and> flexDirection (computedStyle (d ! n)) = ''row''
             \<or> display (computedStyle (d ! n)) = ''grid''
          then 1 else 0)"
  by (auto simp: getElement_def getNodeOverrideStyles_def)

lemma iterateDOM_chain:
  assumes i: "iterateDOM rnd d = Inr final" and b: "body d = Some b"
    and p: "p \<in> set (querySelectorAll d b globalParagraphSelector)"
    and e: "getElement d p = Some e" and v: "\<not> (\<not> isSVGElement e \<and> offsetHeight e = 0)"
    and m: "parentElement e = Some m"
    and ch: "\<forall>n \<in> set (parentChain d k m).
               body d \<noteq> Some n \<and> isAsideEquivalent (document final ! n) = Inr False"
  shows "set (parentChain d k m) \<subseteq> set (containerNodes (iterateDOMLog rnd d))"
proof -
  let ?st0 = "\<lparr>document = d, draws = 0, containerSelectors = [], overrideCssDeclarations = [],
                 backgroundColors = [], seenNodes = []\<rparr>"
  from i b have f: "forEachParagraph rnd ?st0 (querySelectorAll d b globalParagraphSelector) = Inr final"
    by (auto simp: iterateDOM_def not_NodeList_def)
  have L: "iterateDOMLog rnd d
           = forEachParagraphLog rnd ?st0 (querySelectorAll d b globalParagraphSelector)"
    using b by (simp add: iterateDOMLog_def not_NodeList_def)
  have c0: "chainsClosed ?st0 {} None" by (simp add: chainsClosed_def)
  note r = forEachParagraph_chainsClosed [OF f c0]
  from r [THEN conjunct1]
  have inv: "chainsClosed final (set (containerNodes (iterateDOMLog rnd d))) None"
    unfolding L by simp
  from r [THEN conjunct2]
  have vis: "\<forall>p \<in> set (querySelectorAll d b globalParagraphSelector).
        \<forall>e m. getElement (document ?st0) p = Some e
            \<and> \<not> (\<not> isSVGElement e \<and> offsetHeight e = 0) \<and> parentElement e = Some m
          \<longrightarrow> body (document ?st0) = Some m \<or> m \<in> set (seenNodes final)" .
  from vis [rule_format, of p e m] p e v m
  have "body d = Some m \<or> m \<in> set (seenNodes final)" by simp
  moreover have "m \<in> set (parentChain d k m)" by (cases k) simp_all
  ultimately have ms: "m \<in> set (seenNodes final)" using ch by auto
  from chain_processed [OF inv iterateDOM_log(6) [OF i] ms ch] show ?thesis .
qed

lemma nested_traversal:
  "map_sum id (\<lambda>st. (containerSelectors st, overrideCssDeclarations st,
                      map (\<lambda>a. isAsideEquivalent (document st ! a)) [6, 3]))
     (iterateDOM exampleRandom nestedDocument)
   = Inr ([''section.container_7 > p'', ''section.container_77'',
           ''div.container_777[id='' @ [apostrophe] @ ''wrap'' @ [apostrophe] @ '']'',
           ''section.container_7777 > p'', ''section.container_77777''],
          [''div.container_777[id='' @ [apostrophe] @ ''wrap'' @ [apostrophe] @ ''] { display: block; }''],
          [Inr False, Inr False])"
  by code_simp

lemma nested_log:
  "iterateDOMLog exampleRandom nestedDocument
   = [ParagraphChild 4 ''section.container_7'', Container 4 ''section.container_77'',
      Container 3 (''div.container_777[id='' @ [apostrophe] @ ''wrap'' @ [apostrophe] @ '']''),
      ParagraphChild 6 ''section.container_7777'', Container 6 ''section.container_77777'']"
  by code_simp

section \<open>Lemmas on injection and restoration\<close>

lemma remove_length: "length (remove d m) = length d"
  by (simp add: remove_def)

lemma foldl_remove_length: "length (foldl remove d ms) = length d"
  by (induction ms arbitrary: d) (simp_all add: remove_length)

lemma remove_classList: "classList (remove d m ! n) = classList (d ! n)"
  by (cases "n = m") (simp_all add: remove_def)

lemma foldl_remove_classList: "classList (foldl remove d ms ! n) = classList (d ! n)"
  by (induction ms arbitrary: d) (simp_all add: remove_classList)

lemma remove_parentNode:
  "parentNode (remove d m ! n) = (if n = m \<and> m < length d then None else parentNode (d ! n))"
  by (simp add: remove_def)

lemma foldl_remove_parentNode:
  "parentNode (foldl remove d ms ! n)
     = (if n \<in> set ms \<and> n < length d then None else parentNode (d ! n))"
proof (induction ms arbitrary: d)
  case Nil
  show ?case by simp
next
  case (Cons m ms)
  show ?case by (auto simp: Cons.IH remove_parentNode remove_length)
qed

lemma ancestorWithin_cut:
  assumes len: "length d' = length d"
    and par: "\<And>n. parentNode (d' ! n) = None \<or> parentNode (d' ! n) = parentNode (d ! n)"
  shows "ancestorWithin k d' a n \<Longrightarrow> ancestorWithin k d a n"
proof (induction k arbitrary: n)
  case 0
  then show ?case by simp
next
  case (Suc k)
  from Suc.prems obtain e p where ep: "getElement d' n = Some e" "parentNode e = Some p"
    "p = a \<or> (\<exists>m. p = Element m \<and> ancestorWithin k d' a m)"
    unfolding ancestorWithin_Suc_iff by blast
  from ep(1) len have lt: "n < length d" and e: "e = d' ! n"
    by (auto simp: getElement_def split: if_splits)
  from par [of n] ep(2) e have "parentNode (d ! n) = Some p" by auto
  moreover from ep(3) Suc.IH have "p = a \<or> (\<exists>m. p = Element m \<and> ancestorWithin k d a m)"
    by blast
  ultimately show ?case
    using lt unfolding ancestorWithin_Suc_iff by (auto simp: getElement_def)
qed

lemma isConnected_parentNode:
  "isConnected d n \<Longrightarrow> n < length d \<and> parentNode (d ! n) \<noteq> None"
  unfolding isConnected_def
  by (cases "length d") (auto simp: getElement_def split: if_splits option.splits)

lemma removed_not_connected:
  assumes "d' = foldl remove d (document_querySelectorAll d sel)"
    and "isConnected d' n"
  shows "\<not> list_ex (matches (d' ! n)) sel"
proof
  assume m: "list_ex (matches (d' ! n)) sel"
  let ?L = "document_querySelectorAll d sel"
  from assms(1) have len: "length d' = length d" by (simp add: foldl_remove_length)
  from assms(2) have lt: "n < length d'" and pn: "parentNode (d' ! n) \<noteq> None"
    using isConnected_parentNode by blast+
  have cl: "classList (d' ! n) = classList (d ! n)"
    by (simp add: assms(1) foldl_remove_classList)
  have tg: "tagName (d' ! n) = tagName (d ! n)"
    using assms(1) lt len
  proof -
    have "\<And>ms d. tagName (foldl remove d ms ! n) = tagName (d ! n)"
    proof -
      fix ms :: "nat list" and d :: dom
      show "tagName (foldl remove d ms ! n) = tagName (d ! n)"
      proof (induction ms arbitrary: d)
        case Nil
        show ?case by simp
      next
        case (Cons m ms)
        have "tagName (remove d m ! n) = tagName (d ! n)"
          by (cases "n = m") (simp_all add: remove_def)
        with Cons.IH show ?case by simp
      qed
    qed
    with assms(1) show ?thesis by simp
  qed
  have "matches (d' ! n) s = matches (d ! n) s" for s
    by (cases s) (simp_all add: cl tg)
  with m have m': "list_ex (matches (d ! n)) sel" by (simp add: list_ex_iff)
  have "ancestorWithin (length d') d Document n"
  proof (rule ancestorWithin_cut [OF len])
    show "parentNode (d' ! n) = None \<or> parentNode (d' ! n) = parentNode (d ! n)" for n
      by (simp add: assms(1) foldl_remove_parentNode)
    show "ancestorWithin (length d') d' Document n"
      using assms(2) by (simp add: isConnected_def)
  qed
  with len have "isConnected d n" by (simp add: isConnected_def)
  with m' lt len have "n \<in> set ?L" by (simp add: document_querySelectorAll_def)
  with lt len have "parentNode (d' ! n) = None"
    by (simp add: assms(1) foldl_remove_parentNode)
  with pn show False by contradiction
qed

lemma foldl_remove_nth: "n \<notin> set ms \<Longrightarrow> foldl remove d ms ! n = d ! n"
  by (induction ms arbitrary: d) (auto simp: remove_def)

lemma not_selected:
  "\<not> list_ex (matches (d ! n)) sel \<Longrightarrow> n \<notin> set (document_querySelectorAll d sel)"
  by (simp add: document_querySelectorAll_def)

lemma createStylesheetText_length:
  "length (createStylesheetText t styleId d) = Suc (length d)"
  by (simp add: createStylesheetText_def Let_def foldl_remove_length)

lemma createStylesheetText_nth:
  "n < length d \<Longrightarrow> styleId \<notin> set (classList (d ! n)) \<Longrightarrow>
     createStylesheetText t styleId d ! n = d ! n"
  using not_selected [of d n "[ClassSel styleId]"]
  by (simp add: createStylesheetText_def Let_def nth_append foldl_remove_length foldl_remove_nth)

lemma unPatchDomTransform_length: "length (unPatchDomTransform d) = length d"
  by (simp add: unPatchDomTransform_def foldl_remove_length)

lemma unPatchDomTransform_nth:
  "''lindy-font-size'' \<notin> set (classList (d ! n)) \<Longrightarrow>
   ''lindy-text-chain-override'' \<notin> set (classList (d ! n)) \<Longrightarrow>
   ''lindy-node-overrides'' \<notin> set (classList (d ! n)) \<Longrightarrow>
     unPatchDomTransform d ! n = d ! n"
  using not_selected [of d n "[ClassSel ''lindy-font-size'', ClassSel ''lindy-text-chain-override'',
                               ClassSel ''lindy-node-overrides'']"]
  by (simp add: unPatchDomTransform_def foldl_remove_nth)

lemma restored_nth:
  assumes "n < length (document st)"
    and "''lindy-font-size'' \<notin> set (classList (document st ! n))"
    and "''lindy-text-chain-override'' \<notin> set (classList (document st ! n))"
    and "''lindy-node-overrides'' \<notin> set (classList (document st ! n))"
  shows "unPatchDomTransform (pageViewTransition createStylesheetText st) ! n = document st ! n"
proof -
  let ?d1 = "createStylesheetText (getTextElementChainOverrideStyle (containerSelectors st))
               ''lindy-text-chain-override'' (document st)"
  have 1: "?d1 ! n = document st ! n"
    using assms by (simp add: createStylesheetText_nth)
  have "n < length ?d1" using assms(1) by (simp add: createStylesheetText_length)
  then have 2: "pageViewTransition createStylesheetText st ! n = document st ! n"
    using assms 1 by (simp add: pageViewTransition_def createStylesheetText_nth)
  with assms show ?thesis by (simp add: unPatchDomTransform_nth)
qed

lemma restored_length:
  "length (unPatchDomTransform (pageViewTransition createStylesheetText st))
     = Suc (Suc (length (document st)))"
  by (simp add: unPatchDomTransform_length pageViewTransition_def createStylesheetText_length)

lemma ancestorWithin_le:
  "ancestorWithin k d a n \<Longrightarrow> k \<le> k' \<Longrightarrow> ancestorWithin k' d a n"
proof (induction k' arbitrary: k)
  case 0
  then show ?case by simp
next
  case (Suc k')
  show ?case
  proof (cases "k = Suc k'")
    case True
    with Suc.prems show ?thesis by simp
  next
    case False
    with Suc.prems have "k \<le> k'" by simp
    from Suc.IH [OF Suc.prems(1) this] show ?thesis by (rule ancestorWithin_mono)
  qed
qed

lemma article_restored:
  "\<exists>st. iterateDOM exampleRandom articleDocument = Inr st
        \<and> isConnected (unPatchDomTransform (pageViewTransition createStylesheetText st)) 3
        \<and> classList (unPatchDomTransform (pageViewTransition createStylesheetText st) ! 3)
            = [''article'', ''container_7'', ''container_77'']"
proof -
  have A: "map_sum id
             (\<lambda>st. (map (\<lambda>n. (parentNode (document st ! n), classList (document st ! n))) [0, 2, 3],
                    length (document st)))
             (iterateDOM exampleRandom articleDocument)
           = Inr ([(Some Document, []), (Some (Element 0), []),
                   (Some (Element 2), [''article'', ''container_7'', ''container_77''])], 8)"
    by code_simp
  then obtain st where st: "iterateDOM exampleRandom articleDocument = Inr st"
    by (cases "iterateDOM exampleRandom articleDocument") auto
  let ?d' = "unPatchDomTransform (pageViewTransition createStylesheetText st)"
  from A st have len: "length (document st) = 8"
    and p0: "parentNode (document st ! 0) = Some Document" "classList (document st ! 0) = []"
    and p2: "parentNode (document st ! 2) = Some (Element 0)" "classList (document st ! 2) = []"
    and p3: "parentNode (document st ! 3) = Some (Element 2)"
            "classList (document st ! 3) = [''article'', ''container_7'', ''container_77'']"
    by simp_all
  have n0: "?d' ! 0 = document st ! 0" using len p0 by (intro restored_nth) simp_all
  have n2: "?d' ! 2 = document st ! 2" using len p2 by (intro restored_nth) simp_all
  have n3: "?d' ! 3 = document st ! 3" using len p3 by (intro restored_nth) simp_all
  have len': "length ?d' = 10" using len by (simp add: restored_length)
  have "ancestorWithin (Suc (Suc (Suc 0))) ?d' Document 3"
    using n0 n2 n3 p0 p2 p3 len' by (simp add: getElement_def)
  then have "ancestorWithin (length ?d') ?d' Document 3"
    by (rule ancestorWithin_le) (simp add: len')
  then have "isConnected ?d' 3" by (simp add: isConnected_def)
  with st n3 p3 show ?thesis by auto
qed

section \<open>Lemmas on the URL pattern\<close>

lemma expandReplacement_plain:
  "CHR ''$'' \<notin> set r \<Longrightarrow> expandReplacement m pre post r = r"
  by (induction m pre post r rule: expandReplacement.induct) auto

lemma startsAbsolute_append: "startsAbsolute u \<Longrightarrow> startsAbsolute (u @ t)"
  by (auto simp: startsAbsolute_def)

lemma captureUrl_unquoted:
  assumes "dquote \<notin> set u" "apostrophe \<notin> set u"
  shows "captureUrl u = u"
proof -
  have "\<not> prefix [dquote] u" "\<not> prefix [apostrophe] u"
    using assms by (cases u; simp)+
  moreover have "\<not> suffix [dquote, apostrophe] u" "\<not> suffix [dquote] u" "\<not> suffix [apostrophe] u"
    using assms by (auto simp: suffix_def)
  ultimately show ?thesis
    by (simp add: captureUrl_def stripLeadingQuotes_def stripTrailingQuotes_def)
qed

lemma urlMatches_skip: "k \<le> length s \<Longrightarrow> urlMatches k s = urlMatches 0 (drop k s)"
  by (induction k s rule: urlMatches.induct) auto

lemma urlMatches_after_match:
  assumes "matchUrlAt (c # cs) = Some (u, Suc (length pre))" "cs = pre @ post"
  shows "urlMatches 0 (c # cs) = u # urlMatches 0 post"
proof -
  have "urlMatches 0 (c # cs) = u # urlMatches (length pre) (pre @ post)"
    using assms by simp
  also have "urlMatches (length pre) (pre @ post) = urlMatches 0 (drop (length pre) (pre @ post))"
    by (rule urlMatches_skip) simp
  finally show ?thesis by simp
qed

lemma prefix_before_other:
  assumes "prefix w (xs @ c # b)" "c \<notin> set w"
  shows "prefix w xs"
proof -
  from assms(1) have "prefix w xs \<or> (\<exists>us. w = xs @ us \<and> prefix us (c # b))"
    by (simp add: prefix_append)
  then show ?thesis
  proof
    assume "prefix w xs"
    then show ?thesis .
  next
    assume "\<exists>us. w = xs @ us \<and> prefix us (c # b)"
    then obtain us where w: "w = xs @ us" and p: "prefix us (c # b)" by blast
    show ?thesis
    proof (cases us)
      case Nil
      with w show ?thesis by simp
    next
      case (Cons x us')
      with p have "x = c" by simp
      with w Cons assms(2) show ?thesis by simp
    qed
  qed
qed

lemma str_includes_separator:
  assumes "c \<notin> set w" "w \<noteq> []"
  shows "str_includes (a @ c # b) w = (str_includes a w \<or> str_includes b w)"
proof (induction a)
  case Nil
  have "\<not> prefix w (c # b)" using assms by (cases w) auto
  with assms(2) show ?case by simp
next
  case (Cons x a)
  have "prefix w (x # a @ c # b) = prefix w (x # a)"
  proof
    assume "prefix w (x # a @ c # b)"
    then have "prefix w ((x # a) @ c # b)" by simp
    then show "prefix w (x # a)" using assms(1) by (rule prefix_before_other)
  next
    assume "prefix w (x # a)"
    then have "prefix w ((x # a) @ c # b)" by (rule prefix_prefix)
    then show "prefix w (x # a @ c # b)" by simp
  qed
  with Cons.IH show ?case by auto
qed

lemma urlMatches_text:
  assumes "\<not> str_includes t ''url(''" "rest = [] \<or> prefix ''url('' rest"
  shows "urlMatches 0 (t @ rest) = urlMatches 0 rest"
  using assms(1)
proof (induction t)
  case Nil
  show ?case by simp
next
  case (Cons c t)
  from Cons.prems have np: "\<not> prefix ''url('' (c # t)" and ni: "\<not> str_includes t ''url(''"
    by simp_all
  have "\<not> prefix ''url('' ((c # t) @ rest)"
  proof
    assume p: "prefix ''url('' ((c # t) @ rest)"
    from assms(2) show False
    proof
      assume "rest = []"
      with p np show False by simp
    next
      assume "prefix ''url('' rest"
      then obtain r where r: "rest = ''url('' @ r" by (auto simp: prefix_def)
      show False
      proof (cases t)
        case Nil
        with p r show False by simp
      next
        case t1: (Cons a t1)
        show False
        proof (cases t1)
          case Nil
          with p r t1 show False by simp
        next
          case t2: (Cons b t2)
          show False
          proof (cases t2)
            case Nil
            with p r t1 t2 show False by simp
          next
            case (Cons d t3)
            with p np t1 t2 show False by simp
          qed
        qed
      qed
    qed
  qed
  then have "matchUrlAt ((c # t) @ rest) = None"
    unfolding matchUrlAt_def by (simp only: if_False)
  then have "matchUrlAt (c # t @ rest) = None" by simp
  with Cons.IH [OF ni] show ?case by simp
qed

lemma startsAbsolute_before_other:
  assumes "startsAbsolute (u @ c # b)" "c \<in> {CHR '')'', dquote, apostrophe}"
  shows "startsAbsolute u"
proof -
  from assms(1) obtain p where p: "p \<in> {''data:'', ''#'', ''http://'', ''https://''}"
    and pre: "prefix p (u @ c # b)"
    by (auto simp: startsAbsolute_def)
  from p assms(2) have "c \<notin> set p" by (auto simp: dquote_def apostrophe_def)
  with pre have "prefix p u" by (rule prefix_before_other)
  with p show ?thesis by (auto simp: startsAbsolute_def)
qed

lemma startsAbsolute_not_quote:
  "startsAbsolute (c # s) \<Longrightarrow> c \<noteq> dquote \<and> c \<noteq> apostrophe"
  by (auto simp: startsAbsolute_def dquote_def apostrophe_def)

lemma startsAbsolute_Nil [simp]: "\<not> startsAbsolute []"
  by (simp add: startsAbsolute_def)

lemma quote_neq [simp]: "apostrophe \<noteq> dquote" "dquote \<noteq> apostrophe"
  by (simp_all add: dquote_def apostrophe_def)

lemma lookahead_relative:
  assumes qf: "quotesFit q u" and na: "\<not> startsAbsolute u"
  shows "\<not> lookaheadExcludes (quoteText q @ u @ quoteText q @ '')'' @ rst)"
proof (cases q)
  case Unquoted
  with qf have nq: "dquote \<notin> set u" "apostrophe \<notin> set u" by simp_all
  have 1: "\<not> startsAbsolute (u @ CHR '')'' # rst)"
    using startsAbsolute_before_other [of u "CHR '')''" rst] na by auto
  have "\<not> prefix [dquote] (u @ CHR '')'' # rst)" "\<not> prefix [apostrophe] (u @ CHR '')'' # rst)"
    "\<not> prefix [dquote, apostrophe] (u @ CHR '')'' # rst)"
    using nq by (cases u; simp add: dquote_def apostrophe_def)+
  with 1 Unquoted show ?thesis by (simp add: lookaheadExcludes_def)
next
  case DoubleQuoted
  with qf have np: "\<not> prefix [apostrophe] u" by simp
  have 1: "\<not> startsAbsolute (u @ dquote # CHR '')'' # rst)"
    using startsAbsolute_before_other [of u dquote "CHR '')'' # rst"] na by auto
  have 2: "\<not> startsAbsolute (dquote # u @ dquote # CHR '')'' # rst)"
    using startsAbsolute_not_quote by blast
  have 3: "\<not> prefix [dquote, apostrophe] (dquote # u @ dquote # CHR '')'' # rst)"
    using np by (cases u) simp_all
  have 4: "\<not> prefix [apostrophe] (dquote # u @ dquote # CHR '')'' # rst)" by simp
  from 1 2 3 4 DoubleQuoted show ?thesis
    by (simp add: lookaheadExcludes_def)
next
  case SingleQuoted
  have 1: "\<not> startsAbsolute (u @ apostrophe # CHR '')'' # rst)"
    using startsAbsolute_before_other [of u apostrophe "CHR '')'' # rst"] na by auto
  have 2: "\<not> startsAbsolute (apostrophe # u @ apostrophe # CHR '')'' # rst)"
    using startsAbsolute_not_quote by blast
  have 3: "\<not> prefix [dquote] (apostrophe # u @ apostrophe # CHR '')'' # rst)"
    "\<not> prefix [dquote, apostrophe] (apostrophe # u @ apostrophe # CHR '')'' # rst)"
    by simp_all
  from 1 2 3 SingleQuoted show ?thesis
    by (simp add: lookaheadExcludes_def)
qed

lemma lookahead_absolute:
  assumes "startsAbsolute u"
  shows "lookaheadExcludes (quoteText q @ u @ rst)"
  using startsAbsolute_append [OF assms, of rst]
  by (cases q) (auto simp: lookaheadExcludes_def)

lemma drop_length_append: "drop (length xs) (xs @ ys) = ys"
  by simp

lemma captureUrl_quoted:
  assumes qf: "quotesFit q u"
  shows "captureUrl (quoteText q @ u @ quoteText q) = u"
proof (cases q)
  case Unquoted
  with qf have "dquote \<notin> set u" "apostrophe \<notin> set u" by simp_all
  from captureUrl_unquoted [OF this] Unquoted show ?thesis by simp
next
  case DoubleQuoted
  with qf have np: "\<not> prefix [apostrophe] u" by simp
  have "\<not> prefix [apostrophe] (u @ [dquote])"
    using np by (cases u) simp_all
  then have l: "stripLeadingQuotes (dquote # u @ [dquote]) = u @ [dquote]"
    unfolding stripLeadingQuotes_def Let_def by simp
  have "\<not> suffix [dquote, apostrophe] (u @ [dquote])"
    by (auto simp: suffix_def)
  moreover have "suffix [dquote] (u @ [dquote])" by (simp add: suffix_def)
  ultimately have "stripTrailingQuotes (u @ [dquote]) = u"
    by (simp add: stripTrailingQuotes_def)
  with l DoubleQuoted show ?thesis by (simp add: captureUrl_def)
next
  case SingleQuoted
  with qf have ns: "\<not> suffix [dquote] u" by simp
  have "\<not> prefix [dquote] (apostrophe # u @ [apostrophe])" by simp
  then have l: "stripLeadingQuotes (apostrophe # u @ [apostrophe]) = u @ [apostrophe]"
    unfolding stripLeadingQuotes_def Let_def by simp
  have "\<not> suffix [dquote, apostrophe] (u @ [apostrophe])"
  proof
    assume "suffix [dquote, apostrophe] (u @ [apostrophe])"
    then obtain zs where "u @ [apostrophe] = zs @ [dquote, apostrophe]" by (auto simp: suffix_def)
    then have "u = zs @ [dquote]" by simp
    with ns show False by (simp add: suffix_def)
  qed
  moreover have "suffix [apostrophe] (u @ [apostrophe])" by (simp add: suffix_def)
  ultimately have "stripTrailingQuotes (u @ [apostrophe]) = u"
    by (simp add: stripTrailingQuotes_def)
  with l SingleQuoted show ?thesis by (simp add: captureUrl_def)
qed

lemma takeWhile_paren:
  "CHR '')'' \<notin> set s \<Longrightarrow> takeWhile (\<lambda>c. c \<noteq> CHR '')'') (s @ CHR '')'' # rst) = s"
  by (induction s) auto

lemma matchUrlAt_relative:
  assumes "CHR '')'' \<notin> set u" "quotesFit q u" "\<not> startsAbsolute u"
  shows "matchUrlAt (''url('' @ quoteText q @ u @ quoteText q @ '')'' @ rst)
         = Some (u, 4 + length (quoteText q @ u @ quoteText q) + 1)"
proof -
  have np: "CHR '')'' \<notin> set (quoteText q @ u @ quoteText q)"
    using assms(1) by (cases q) (simp_all add: dquote_def apostrophe_def)
  have tw: "takeWhile (\<lambda>c. c \<noteq> CHR '')'') ((quoteText q @ u @ quoteText q) @ CHR '')'' # rst)
              = quoteText q @ u @ quoteText q"
    using np by (rule takeWhile_paren)
  from lookahead_relative [OF assms(2,3), of rst] tw captureUrl_quoted [OF assms(2)]
  show ?thesis by (simp add: matchUrlAt_def Let_def)
qed

lemma matchUrlAt_absolute:
  assumes "startsAbsolute u"
  shows "matchUrlAt (''url('' @ quoteText q @ u @ rst) = None"
  using lookahead_absolute [OF assms, of q rst] by (simp add: matchUrlAt_def Let_def)

lemma renderValue_Cons [simp]:
  "renderValue (r # refs) = renderReference r @ renderValue refs"
  by (simp add: renderValue_def)

lemma renderValue_Nil [simp]: "renderValue [] = []"
  by (simp add: renderValue_def)

lemma renderValue_starts: "renderValue refs = [] \<or> prefix ''url('' (renderValue refs)"
proof (cases refs)
  case Nil
  then show ?thesis by simp
next
  case (Cons r refs')
  then show ?thesis by (cases r) simp
qed

lemma no_url_in_quoted:
  assumes "\<not> str_includes u ''url(''" "\<not> str_includes t ''url(''"
  shows "\<not> str_includes (quoteText q @ u @ quoteText q @ '')'' @ t) ''url(''"
proof -
  have s: "\<And>a b c. c \<in> {CHR '')'', dquote, apostrophe} \<Longrightarrow>
             str_includes (a @ c # b) ''url('' = (str_includes a ''url('' \<or> str_includes b ''url('')"
    by (rule str_includes_separator) (auto simp: dquote_def apostrophe_def)
  have e: "\<not> str_includes [] ''url(''" by simp
  show ?thesis
  proof (cases q)
    case Unquoted
    with assms s [of "CHR '')''" u t] show ?thesis by simp
  next
    case DoubleQuoted
    from assms s [of "CHR '')''" "[]" t] have 1: "\<not> str_includes (CHR '')'' # t) ''url(''" by simp
    with assms s [of dquote u "CHR '')'' # t"]
    have 2: "\<not> str_includes (u @ dquote # CHR '')'' # t) ''url(''" by simp
    with s [of dquote "[]" "u @ dquote # CHR '')'' # t"] DoubleQuoted show ?thesis by simp
  next
    case SingleQuoted
    from assms s [of "CHR '')''" "[]" t] have 1: "\<not> str_includes (CHR '')'' # t) ''url(''" by simp
    with assms s [of apostrophe u "CHR '')'' # t"]
    have 2: "\<not> str_includes (u @ apostrophe # CHR '')'' # t) ''url(''" by simp
    with s [of apostrophe "[]" "u @ apostrophe # CHR '')'' # t"] SingleQuoted show ?thesis by simp
  qed
qed

lemma urlMatches_reference:
  assumes wf: "wellFormed (Reference q u t)" and rest: "rest = [] \<or> prefix ''url('' rest"
  shows "urlMatches 0 (renderReference (Reference q u t) @ rest)
         = (if startsAbsolute u then [] else [u]) @ urlMatches 0 rest"
proof (cases "startsAbsolute u")
  case True
  let ?X = "quoteText q @ u @ quoteText q @ '')'' @ t"
  from wf True have nu: "\<not> str_includes u ''url(''" and nt: "\<not> str_includes t ''url(''" by simp_all
  have "matchUrlAt (''url('' @ quoteText q @ u @ (quoteText q @ '')'' @ t @ rest)) = None"
    using True by (rule matchUrlAt_absolute)
  then have 0: "matchUrlAt (''url('' @ ?X @ rest) = None" by simp
  have 1: "matchUrlAt (''rl('' @ ?X @ rest) = None" "matchUrlAt (''l('' @ ?X @ rest) = None"
    "matchUrlAt (''('' @ ?X @ rest) = None"
    by (simp_all add: matchUrlAt_def)
  have "urlMatches 0 (''url('' @ ?X @ rest) = urlMatches 0 (?X @ rest)"
    using 0 1 by simp
  also have "\<dots> = urlMatches 0 rest"
    using no_url_in_quoted [OF nu nt, of q] rest by (rule urlMatches_text)
  finally show ?thesis using True by simp
next
  case False
  let ?S = "quoteText q @ u @ quoteText q"
  from wf have u: "CHR '')'' \<notin> set u" "quotesFit q u"
    and nt: "\<not> str_includes t ''url(''" by simp_all
  have "matchUrlAt (CHR ''u'' # ''rl('' @ ?S @ '')'' @ t @ rest)
        = Some (u, Suc (length (''rl('' @ ?S @ '')'')))"
    using matchUrlAt_relative [OF u False, of "t @ rest"] by simp
  then have "urlMatches 0 (CHR ''u'' # ''rl('' @ ?S @ '')'' @ t @ rest) = u # urlMatches 0 (t @ rest)"
    by (rule urlMatches_after_match) simp
  also have "urlMatches 0 (t @ rest) = urlMatches 0 rest"
    using nt rest by (rule urlMatches_text)
  finally show ?thesis using False by simp
qed

lemma urlMatches_renderValue:
  "list_all wellFormed refs \<Longrightarrow> urlMatches 0 (renderValue refs) = relativeUrls refs"
proof (induction refs)
  case Nil
  show ?case by simp
next
  case (Cons r refs)
  obtain q u t where r: "r = Reference q u t" by (cases r)
  from Cons.prems r have wf: "wellFormed (Reference q u t)" and wfs: "list_all wellFormed refs"
    by simp_all
  from urlMatches_reference [OF wf renderValue_starts [of refs]] Cons.IH [OF wfs] r
  show ?case by simp
qed

lemma findFirst_extend:
  "findFirst u (pre @ u) = Some (pre, []) \<Longrightarrow> findFirst u (pre @ u @ post) = Some (pre, post)"
proof (induction pre)
  case Nil
  show ?case by (cases u; cases post) simp_all
next
  case (Cons c pre)
  from Cons.prems have np: "\<not> prefix u (c # pre @ u)"
    by (auto split: if_splits)
  with Cons.prems have "findFirst u (pre @ u) = Some (pre, [])"
    by (auto split: if_splits)
  from Cons.IH [OF this] have ih: "findFirst u (pre @ u @ post) = Some (pre, post)" .
  have "\<not> prefix u (c # pre @ u @ post)"
  proof
    assume "prefix u (c # pre @ u @ post)"
    then have "prefix u ((c # pre @ u) @ post)" by simp
    moreover have "prefix (c # pre @ u) ((c # pre @ u) @ post)" by (rule prefixI) simp
    ultimately have "prefix u (c # pre @ u)"
      by (rule prefix_length_prefix) simp
    with np show False ..
  qed
  with ih show ?case by simp
qed

lemma js_replace_at:
  assumes "findFirst u (pre @ u) = Some (pre, [])" "CHR ''$'' \<notin> set href"
  shows "js_replace (pre @ u @ post) u href = pre @ href @ post"
  using findFirst_extend [OF assms(1), of post] expandReplacement_plain [OF assms(2)]
  by (simp add: js_replace_def)

lemma expectedValue_Nil [simp]: "expectedValue U base [] = []"
  by (simp add: expectedValue_def)

lemma expectedValue_Cons [simp]:
  "expectedValue U base (r # refs)
     = renderReference (expectedReference U base r) @ expectedValue U base refs"
  by (simp add: expectedValue_def)

lemma rewriteUrls_renderValue:
  "replaceable U base rewritten refs \<Longrightarrow>
     rewriteUrls U base (rewritten @ renderValue refs) (relativeUrls refs)
       = Inr (rewritten @ expectedValue U base refs)"
proof (induction refs arbitrary: rewritten)
  case Nil
  show ?case by simp
next
  case (Cons r refs)
  obtain q u t where r: "r = Reference q u t" by (cases r)
  show ?case
  proof (cases "startsAbsolute u")
    case True
    with Cons.prems r
    have "replaceable U base (rewritten @ renderReference (Reference q u t)) refs" by simp
    from Cons.IH [OF this] True r show ?thesis by simp
  next
    case False
    with Cons.prems r obtain href where h: "U u base = Some href" "CHR ''$'' \<notin> set href"
      and f: "findFirst u (rewritten @ ''url('' @ quoteText q @ u)
                = Some (rewritten @ ''url('' @ quoteText q, [])"
      and rp: "replaceable U base (rewritten @ renderReference (Reference q href t)) refs"
      by (auto split: option.splits)
    have "js_replace ((rewritten @ ''url('' @ quoteText q) @ u
                        @ (quoteText q @ '')'' @ t @ renderValue refs)) u href
          = (rewritten @ ''url('' @ quoteText q) @ href
              @ (quoteText q @ '')'' @ t @ renderValue refs)"
      using f h(2) by (intro js_replace_at) simp_all
    then have j: "js_replace (rewritten @ renderValue (r # refs)) u href
          = (rewritten @ renderReference (Reference q href t)) @ renderValue refs"
      by (simp add: r)
    from Cons.IH [OF rp] False r h(1) j show ?thesis by simp
  qed
qed

lemma rewrite_references:
  assumes np: "\<not> alreadyProcessed decl" and v: "decl_value decl = renderValue refs"
    and ne: "refs \<noteq> []" and nd: "\<not> prefix ''url(data:'' (decl_value decl)"
    and wf: "list_all wellFormed refs" and rp: "replaceable U base [] refs"
  shows "urlRewritePlugin_Declaration U base decl
         = Inr (decl\<lparr>alreadyProcessed := True,
                     decl_value := expectedValue U base refs\<rparr>)"
proof -
  from ne obtain r refs' where "refs = r # refs'" by (cases refs) auto
  then have p: "prefix ''url('' (decl_value decl)"
    unfolding v by (cases r) simp
  have m: "urlMatches 0 (decl_value decl) = relativeUrls refs"
    unfolding v using wf by (rule urlMatches_renderValue)
  have r: "rewriteUrls U base (decl_value decl) (relativeUrls refs)
           = Inr (expectedValue U base refs)"
    using rewriteUrls_renderValue [OF rp] v by simp
  show ?thesis
    unfolding urlRewritePlugin_Declaration_def using np nd p by (simp add: m r)
qed

text \<open>
  Two behaviours of the URL-rewriting pass outside the amended claim C4: an \<open>@import\<close>
  rule with one reference is returned as it is (\<open>match\<close> with the global flag returns the
  whole matches, and \<open>?.[1]\<close> is the second of them), and a reference that occurs twice
  is replaced inside the text written for its first occurrence.
\<close>

lemma import_rule_not_rewritten:
  "urlRewritePlugin_AtRule exampleURL ''https://site.com/css/a.css''
     \<lparr>alreadyProcessed = False, rule_name = ''import'', rule_params = ''url(foo.css)''\<rparr>
   = Inr \<lparr>alreadyProcessed = False, rule_name = ''import'', rule_params = ''url(foo.css)''\<rparr>"
  by code_simp

lemma repeated_reference_rewritten_wrongly:
  "urlRewritePlugin_Declaration exampleURL ''https://site.com/css/a.css''
     (exampleDeclaration ''url(a.png), url(a.png)'')
   = Inr ((exampleDeclaration ''url(https://site.com/css/https://site.com/css/a.png), url(a.png)'')
            \<lparr>alreadyProcessed := True\<rparr>)"
  by code_simp

section \<open>Lemmas on breakpoint scaling\<close>

text \<open>
  With one literal in the condition the pass scales it, and a rule that is marked is
  returned as it is: \<open>(max-width: 600px)\<close> with scale factor 2 becomes
  \<open>(max-width: 1200px)\<close>, and stays so when the listener runs again.
\<close>

lemma single_literal_scaled_once:
  "scaleBreakpointsPlugin_AtRule 2
     \<lparr>alreadyProcessed = False, rule_name = ''media'', rule_params = ''(max-width: 600px)''\<rparr>
   = \<lparr>alreadyProcessed = True, rule_name = ''media'', rule_params = ''(max-width: 1200px)''\<rparr>
   \<and> scaleBreakpointsPlugin_AtRule 2
       \<lparr>alreadyProcessed = True, rule_name = ''media'', rule_params = ''(max-width: 1200px)''\<rparr>
     = \<lparr>alreadyProcessed = True, rule_name = ''media'', rule_params = ''(max-width: 1200px)''\<rparr>"
  by code_simp

section \<open>Properties\<close>

text \<open>
  Claim C1, as amended. After \<open>unPatchDomTransform\<close>, run on the document that activation
  and \<open>pageViewTransition\<close> leave (whatever \<open>createStylesheetText\<close> does), no element that is
  still in the document carries the class \<open>lindy-font-size\<close>, \<open>lindy-text-chain-override\<close>
  or \<open>lindy-node-overrides\<close>. The restore operation changes no class list: the
  \<open>container_*\<close> classes that \<open>_getNodeSelector\<close> added stay on their elements.
\<close>

theorem C1_restore_removes_injected_styles:
  "iterateDOM rnd d = Inr st \<Longrightarrow>
   (isConnected (unPatchDomTransform (pageViewTransition inject st)) n \<longrightarrow>
      ''lindy-font-size''
          \<notin> set (classList (unPatchDomTransform (pageViewTransition inject st) ! n))
      \<and> ''lindy-text-chain-override''
          \<notin> set (classList (unPatchDomTransform (pageViewTransition inject st) ! n))
      \<and> ''lindy-node-overrides''
          \<notin> set (classList (unPatchDomTransform (pageViewTransition inject st) ! n)))
   \<and> classList (unPatchDomTransform (pageViewTransition inject st) ! n)
       = classList (pageViewTransition inject st ! n)"
proof (intro conjI impI)
  assume "isConnected (unPatchDomTransform (pageViewTransition inject st)) n"
  then have "\<not> list_ex (matches (unPatchDomTransform (pageViewTransition inject st) ! n))
                 [ClassSel ''lindy-font-size'', ClassSel ''lindy-text-chain-override'',
                  ClassSel ''lindy-node-overrides'']"
    by (intro removed_not_connected [of _ "pageViewTransition inject st"])
       (simp_all add: unPatchDomTransform_def)
  then show "''lindy-font-size''
          \<notin> set (classList (unPatchDomTransform (pageViewTransition inject st) ! n))"
    and "''lindy-text-chain-override''
          \<notin> set (classList (unPatchDomTransform (pageViewTransition inject st) ! n))"
    and "''lindy-node-overrides''
          \<notin> set (classList (unPatchDomTransform (pageViewTransition inject st) ! n))"
    by simp_all
next
  show "classList (unPatchDomTransform (pageViewTransition inject st) ! n)
       = classList (pageViewTransition inject st ! n)"
    by (simp add: unPatchDomTransform_def foldl_remove_classList)
qed

text \<open>
  On the article page every hypothesis of C1 holds for the \<open>div\<close>: after activation,
  injection and restoration it is in the document and carries none of the three names.
\<close>

theorem C1_restore_removes_injected_styles_witness:
  "\<exists>st. iterateDOM exampleRandom articleDocument = Inr st
         \<and> isConnected (unPatchDomTransform (pageViewTransition createStylesheetText st)) 3
         \<and> ''lindy-font-size''
              \<notin> set (classList (unPatchDomTransform (pageViewTransition createStylesheetText st) ! 3))
         \<and> ''lindy-text-chain-override''
              \<notin> set (classList (unPatchDomTransform (pageViewTransition createStylesheetText st) ! 3))
         \<and> ''lindy-node-overrides''
              \<notin> set (classList (unPatchDomTransform (pageViewTransition createStylesheetText st) ! 3))
         \<and> classList (unPatchDomTransform (pageViewTransition createStylesheetText st) ! 3)
              = classList (pageViewTransition createStylesheetText st ! 3)"
proof -
  from article_restored obtain st where st: "iterateDOM exampleRandom articleDocument = Inr st"
    and c: "isConnected (unPatchDomTransform (pageViewTransition createStylesheetText st)) 3"
    by blast
  from C1_restore_removes_injected_styles [OF st, of createStylesheetText 3] st c
  show ?thesis by blast
qed

text \<open>
  The claim C1 as it was stated fails: on the article page the \<open>div\<close> is in the document
  after the restore operation and still carries the generated class \<open>container_7\<close>.
\<close>

theorem C1_generated_classes_remain:
  "\<exists>st. iterateDOM exampleRandom articleDocument = Inr st
        \<and> isConnected (unPatchDomTransform (pageViewTransition createStylesheetText st)) 3
        \<and> ''container_7''
             \<in> set (classList (unPatchDomTransform (pageViewTransition createStylesheetText st) ! 3))"
  using article_restored by auto

text \<open>
  Claim C2, as amended. When the upward loop reaches an aside-equivalent element, it
  stops there: unless the element is the body or was visited before, the loop marks it
  visited, and it does nothing else: no selector, no class, no override rule, no color
  sample, and no step to the parent. Before the loop, \<open>iterateParents\<close> gives an
  aside-equivalent parent of a paragraph leaf that is not the body and was not visited
  before one generated class and the entry \<open>selector > p\<close>; the whole effect of
  \<open>iterateParents\<close> on such an element is that entry and the visited mark.
\<close>

theorem C2_aside_element_stops_walk:
  "(getElement (document st) cur = Some e \<and> isAsideEquivalent e = Inr True \<longrightarrow>
      walkUp rnd st (Some cur) =
        Inr (if body (document st) = Some cur \<or> cur \<in> set (seenNodes st) then st
             else st\<lparr>seenNodes := seenNodes st @ [cur]\<rparr>))
   \<and> (getElement (document st) cur = Some e \<and> isAsideEquivalent e = Inr True
        \<and> cur \<notin> set (seenNodes st) \<and> body (document st) \<noteq> Some cur
        \<and> getNodeSelector rnd st cur = Inr (sel, st1) \<longrightarrow>
      iterateParents rnd st (Some cur) =
        Inr (st1\<lparr>containerSelectors := containerSelectors st1 @ [sel @ '' > p''],
                 seenNodes := seenNodes st1 @ [cur]\<rparr>))"
  using aside_walkUp aside_iterateParents by blast

text \<open>
  On the article page the \<open>footer\<close> is aside-equivalent: the loop only marks it, and
  \<open>iterateParents\<close> records \<open>footer.container_7 > p\<close> for it.
\<close>

theorem C2_aside_element_stops_walk_witness:
  "walkUp exampleRandom (startTraversal articleDocument) (Some 6)
     = Inr ((startTraversal articleDocument)\<lparr>seenNodes := [6]\<rparr>)
   \<and> map_sum id (\<lambda>st. (containerSelectors st, seenNodes st))
        (iterateParents exampleRandom (startTraversal articleDocument) (Some 6))
     = Inr ([''footer.container_7 > p''], [6])"
proof -
  let ?st = "startTraversal articleDocument"
  have e: "getElement (document ?st) 6 = Some (articleDocument ! 6)" by code_simp
  have a: "isAsideEquivalent (articleDocument ! 6) = Inr True" by code_simp
  have b: "body (document ?st) \<noteq> Some 6" by code_simp
  have s: "6 \<notin> set (seenNodes ?st)" "seenNodes ?st = []" by (simp_all add: startTraversal_def)
  obtain sel st1 where g: "getNodeSelector exampleRandom ?st 6 = Inr (sel, st1)"
    using getNodeSelector_defined [OF e] by blast
  have g': "map_sum id (\<lambda>(sel, st1). (containerSelectors st1 @ [sel @ '' > p''], seenNodes st1 @ [6]))
              (getNodeSelector exampleRandom ?st 6) = Inr ([''footer.container_7 > p''], [6])"
    by code_simp
  from C2_aside_element_stops_walk [of ?st 6 "articleDocument ! 6" exampleRandom sel st1]
       e a b s g g'
  show ?thesis by simp
qed

text \<open>
  The claim C2 as it was stated fails: in the traversal of the article page the
  aside-equivalent \<open>footer\<close> gets the generated class \<open>container_777\<close>, and the collected
  selectors end with \<open>footer.container_777 > p\<close>.
\<close>

theorem C2_aside_parent_gets_selector:
  "isAsideEquivalent (articleDocument ! 6) = Inr True
   \<and> map_sum id (\<lambda>st. (classList (document st ! 6), last (containerSelectors st)))
       (iterateDOM exampleRandom articleDocument)
     = Inr ([''container_777''], ''footer.container_777 > p'')"
  by code_simp

text \<open>
  Claim C3. The breakpoint-scaling pass is meant to replace every integer literal of a
  \<open>@media\<close> condition by the literal times the scale factor. On the condition
  \<open>(min-width: 100px) and (max-width: 200px)\<close> with scale factor 2 the listener returns
  \<open>(min-width: 400px) and (max-width: 200px)\<close>: the second replacement finds the text
  \<open>200\<close> first where the first replacement has just written it.
\<close>

theorem C3_second_literal_not_scaled:
  "scaleBreakpointsPlugin_AtRule 2
     \<lparr>alreadyProcessed = False, rule_name = ''media'',
      rule_params = ''(min-width: 100px) and (max-width: 200px)''\<rparr>
   = \<lparr>alreadyProcessed = True, rule_name = ''media'',
      rule_params = ''(min-width: 400px) and (max-width: 200px)''\<rparr>"
  by code_simp

text \<open>
  Claim C4, as amended. For a declaration that is not marked processed: a value that
  begins with \<open>url(data:\<close> is returned as it is. Any other value that is a sequence of
  well-formed references \<open>url(u)\<close>, \<open>url("u")\<close> or \<open>url('u')\<close>, each followed by text
  without \<open>url(\<close>, becomes the value the claim expects, and the declaration is marked:
  every relative \<open>u\<close> is replaced by its URL resolved against the stylesheet URL, and
  every \<open>u\<close> that begins with \<open>data:\<close>, \<open>#\<close>, \<open>http://\<close> or \<open>https://\<close> stays as it is.
  This holds when the references are \<open>replaceable\<close>: no resolved URL holds a \<open>$\<close>, and
  each relative \<open>u\<close> occurs in the value, as rewritten up to its reference, for the first
  time in the reference itself. A value that does not begin with \<open>url(\<close> is returned as it
  is. \<open>@import\<close> rules are left out here.
\<close>

theorem C4_references_rewritten:
  "\<not> alreadyProcessed decl \<Longrightarrow>
   (prefix ''url(data:'' (decl_value decl) \<longrightarrow>
      urlRewritePlugin_Declaration U base decl = Inr decl)
   \<and> (decl_value decl = renderValue refs \<and> refs \<noteq> []
        \<and> \<not> prefix ''url(data:'' (decl_value decl)
        \<and> list_all wellFormed refs \<and> replaceable U base [] refs \<longrightarrow>
        urlRewritePlugin_Declaration U base decl
          = Inr (decl\<lparr>alreadyProcessed := True,
                      decl_value := expectedValue U base refs\<rparr>))
   \<and> (\<not> prefix ''url('' (decl_value decl) \<longrightarrow>
        urlRewritePlugin_Declaration U base decl = Inr decl)"
proof (intro conjI impI)
  assume "\<not> alreadyProcessed decl" "prefix ''url(data:'' (decl_value decl)"
  then show "urlRewritePlugin_Declaration U base decl = Inr decl"
    by (auto simp: urlRewritePlugin_Declaration_def)
next
  assume "\<not> alreadyProcessed decl"
    "decl_value decl = renderValue refs \<and> refs \<noteq> []
        \<and> \<not> prefix ''url(data:'' (decl_value decl)
        \<and> list_all wellFormed refs \<and> replaceable U base [] refs"
  then show "urlRewritePlugin_Declaration U base decl
          = Inr (decl\<lparr>alreadyProcessed := True,
                      decl_value := expectedValue U base refs\<rparr>)"
    using rewrite_references [of decl refs U base] by blast
next
  assume "\<not> prefix ''url('' (decl_value decl)"
  then show "urlRewritePlugin_Declaration U base decl = Inr decl"
    by (simp add: urlRewritePlugin_Declaration_def)
qed

text \<open>
  The examples of claim C4, from its theorem: \<open>url(../img/a.png)\<close> against
  \<open>https://site.com/css/a.css\<close> becomes \<open>url(https://site.com/img/a.png)\<close>; in a value
  with five references the three relative ones, unquoted and quoted, are resolved and
  the absolute one and the fragment stay; a \<open>data:\<close> value and a value that begins with
  other text are returned as they are.
\<close>

theorem C4_references_rewritten_witness:
  "urlRewritePlugin_Declaration exampleURL ''https://site.com/css/a.css''
       (exampleDeclaration ''url(../img/a.png)'')
     = Inr ((exampleDeclaration ''url(https://site.com/img/a.png)'')\<lparr>alreadyProcessed := True\<rparr>)
   \<and> urlRewritePlugin_Declaration exampleURL ''https://site.com/css/a.css''
       (exampleDeclaration
          (''url(a.png), url('' @ [apostrophe] @ ''../b.png'' @ [apostrophe] @ '') no-repeat, url(''
           @ [dquote] @ ''c.png'' @ [dquote] @ '') 2x, url(https://cdn.site.com/d.png), url(#clip)''))
     = Inr ((exampleDeclaration
          (''url(https://site.com/css/a.png), url('' @ [apostrophe] @ ''https://site.com/b.png''
           @ [apostrophe] @ '') no-repeat, url('' @ [dquote] @ ''https://site.com/css/c.png''
           @ [dquote] @ '') 2x, url(https://cdn.site.com/d.png), url(#clip)''))
            \<lparr>alreadyProcessed := True\<rparr>)
   \<and> urlRewritePlugin_Declaration exampleURL ''https://site.com/css/a.css''
       (exampleDeclaration ''url(data:image/png;base64,AAAA)'')
     = Inr (exampleDeclaration ''url(data:image/png;base64,AAAA)'')
   \<and> urlRewritePlugin_Declaration exampleURL ''https://site.com/css/a.css''
       (exampleDeclaration ''center / cover url(a.png)'')
     = Inr (exampleDeclaration ''center / cover url(a.png)'')"
proof -
  let ?base = "''https://site.com/css/a.css''"
  let ?one = "[Reference Unquoted ''../img/a.png'' []]"
  have w1: "list_all wellFormed ?one" by code_simp
  have r1: "replaceable exampleURL ?base [] ?one" by code_simp
  have v1: "renderValue ?one = ''url(../img/a.png)''" by code_simp
  have o1: "expectedValue exampleURL ?base ?one
            = ''url(https://site.com/img/a.png)''" by code_simp
  have 1: "urlRewritePlugin_Declaration exampleURL ?base (exampleDeclaration ''url(../img/a.png)'')
     = Inr ((exampleDeclaration ''url(https://site.com/img/a.png)'')\<lparr>alreadyProcessed := True\<rparr>)"
    using C4_references_rewritten
            [of "exampleDeclaration ''url(../img/a.png)''" exampleURL ?base ?one] w1 r1
    unfolding o1 v1 by (simp add: exampleDeclaration_def)
  let ?in = "''url(a.png), url('' @ [apostrophe] @ ''../b.png'' @ [apostrophe] @ '') no-repeat, url(''
           @ [dquote] @ ''c.png'' @ [dquote] @ '') 2x, url(https://cdn.site.com/d.png), url(#clip)''"
  let ?out = "''url(https://site.com/css/a.png), url('' @ [apostrophe] @ ''https://site.com/b.png''
           @ [apostrophe] @ '') no-repeat, url('' @ [dquote] @ ''https://site.com/css/c.png''
           @ [dquote] @ '') 2x, url(https://cdn.site.com/d.png), url(#clip)''"
  have w2: "list_all wellFormed exampleReferences" by code_simp
  have r2: "replaceable exampleURL ?base [] exampleReferences" by code_simp
  have v2: "renderValue exampleReferences = ?in" by code_simp
  have o2: "expectedValue exampleURL ?base exampleReferences = ?out"
    by code_simp
  have n2: "exampleReferences \<noteq> []" by (simp add: exampleReferences_def)
  have d2: "\<not> prefix ''url(data:'' ?in" by simp
  have 2: "urlRewritePlugin_Declaration exampleURL ?base (exampleDeclaration ?in)
     = Inr ((exampleDeclaration ?out)\<lparr>alreadyProcessed := True\<rparr>)"
    using C4_references_rewritten
            [of "exampleDeclaration ?in" exampleURL ?base exampleReferences] w2 r2 n2 d2
    unfolding o2 v2 by (simp add: exampleDeclaration_def)
  have 3: "urlRewritePlugin_Declaration exampleURL ?base
             (exampleDeclaration ''url(data:image/png;base64,AAAA)'')
           = Inr (exampleDeclaration ''url(data:image/png;base64,AAAA)'')"
    using C4_references_rewritten
            [of "exampleDeclaration ''url(data:image/png;base64,AAAA)''" exampleURL ?base]
    by (simp add: exampleDeclaration_def)
  have 4: "urlRewritePlugin_Declaration exampleURL ?base
             (exampleDeclaration ''center / cover url(a.png)'')
           = Inr (exampleDeclaration ''center / cover url(a.png)'')"
    using C4_references_rewritten
            [of "exampleDeclaration ''center / cover url(a.png)''" exampleURL ?base]
    by (simp add: exampleDeclaration_def)
  from 1 2 3 4 show ?thesis by blast
qed

text \<open>
  The claim C4 as it was stated fails: the value \<open>no-repeat url(../img/a.png)\<close> holds a
  relative reference, which resolves to \<open>https://site.com/img/a.png\<close>, and the listener
  returns the declaration unchanged, since the value does not begin with \<open>url(\<close>.
\<close>

theorem C4_later_reference_not_rewritten:
  "exampleURL ''../img/a.png'' ''https://site.com/css/a.css'' = Some ''https://site.com/img/a.png''
   \<and> urlRewritePlugin_Declaration exampleURL ''https://site.com/css/a.css''
        \<lparr>alreadyProcessed = False, decl_prop = ''background'',
         decl_value = ''no-repeat url(../img/a.png)'', important = False\<rparr>
     = Inr \<lparr>alreadyProcessed = False, decl_prop = ''background'',
            decl_value = ''no-repeat url(../img/a.png)'', important = False\<rparr>"
  by (simp add: exampleURL_def urlRewritePlugin_Declaration_def)

text \<open>
  Claim C5, as amended. An element that is in the visited set stops every chain that
  reaches it: the loop and \<open>iterateParents\<close> return the state unchanged. In a whole
  traversal the collected selectors and override rules are those of the recorded
  entries, in order, and no element has two entries of the loop: an element gets at
  most one selector from the loop, and with it one override rule when its display is
  \<open>flex\<close> with direction \<open>row\<close> or \<open>grid\<close>, and none otherwise. No element other than the
  body has two entries \<open>selector > p\<close>. Every element on the chain of a visible
  paragraph, from the parent of the paragraph upwards, has its entry of the loop, as far
  as the chain holds neither the body nor an element that \<open>_isAsideEquivalent\<close> does not
  reject in the final document.
\<close>

theorem C5_element_handled_at_most_once:
  "(cur \<in> set (seenNodes st) \<longrightarrow>
      walkUp rnd st (Some cur) = Inr st \<and> iterateParents rnd st (Some cur) = Inr st)
   \<and> (iterateDOM rnd d = Inr final \<longrightarrow>
        containerSelectors final = map pushedText (iterateDOMLog rnd d)
        \<and> overrideCssDeclarations final = concat (map (ruleOf d) (iterateDOMLog rnd d))
        \<and> distinct (containerNodes (iterateDOMLog rnd d))
        \<and> distinct (filter (\<lambda>n. body d \<noteq> Some n) (paragraphParents (iterateDOMLog rnd d))))
   \<and> (iterateDOM rnd d = Inr final \<and> Container n sel \<in> set (iterateDOMLog rnd d) \<longrightarrow>
        length (ruleOf d (Container n sel))
          = (if display (computedStyle (d ! n)) = ''flex''
                  \<and> flexDirection (computedStyle (d ! n)) = ''row''
                \<or> display (computedStyle (d ! n)) = ''grid''
             then 1 else 0))
   \<and> (iterateDOM rnd d = Inr final \<and> body d = Some b
        \<and> p \<in> set (querySelectorAll d b globalParagraphSelector)
        \<and> getElement d p = Some e \<and> \<not> (\<not> isSVGElement e \<and> offsetHeight e = 0)
        \<and> parentElement e = Some m
        \<and> (\<forall>a \<in> set (parentChain d k m).
              body d \<noteq> Some a \<and> isAsideEquivalent (document final ! a) = Inr False)
      \<longrightarrow> set (parentChain d k m) \<subseteq> set (containerNodes (iterateDOMLog rnd d)))"
proof (intro conjI impI)
  assume "cur \<in> set (seenNodes st)"
  then show "walkUp rnd st (Some cur) = Inr st" by (rule walkUp_seen)
next
  assume "cur \<in> set (seenNodes st)"
  then show "iterateParents rnd st (Some cur) = Inr st"
    by (simp add: iterateParents_def walkUp_seen)
next
  assume "iterateDOM rnd d = Inr final"
  then show "containerSelectors final = map pushedText (iterateDOMLog rnd d)"
    by (rule iterateDOM_log)
next
  assume "iterateDOM rnd d = Inr final"
  then show "overrideCssDeclarations final = concat (map (ruleOf d) (iterateDOMLog rnd d))"
    by (rule iterateDOM_log)
next
  assume "iterateDOM rnd d = Inr final"
  then show "distinct (containerNodes (iterateDOMLog rnd d))"
    by (rule iterateDOM_log)
next
  assume "iterateDOM rnd d = Inr final"
  then show "distinct (filter (\<lambda>n. body d \<noteq> Some n) (paragraphParents (iterateDOMLog rnd d)))"
    by (rule iterateDOM_log)
next
  assume a: "iterateDOM rnd d = Inr final \<and> Container n sel \<in> set (iterateDOMLog rnd d)"
  then have "n \<in> set (containerNodes (iterateDOMLog rnd d))"
    by (blast intro: Container_containerNodes)
  with iterateDOM_log(7) [of rnd d final] a have "n < length d" by auto
  then show "length (ruleOf d (Container n sel))
          = (if display (computedStyle (d ! n)) = ''flex''
                  \<and> flexDirection (computedStyle (d ! n)) = ''row''
                \<or> display (computedStyle (d ! n)) = ''grid''
             then 1 else 0)"
    by (rule ruleOf_length)
next
  assume "iterateDOM rnd d = Inr final \<and> body d = Some b
        \<and> p \<in> set (querySelectorAll d b globalParagraphSelector)
        \<and> getElement d p = Some e \<and> \<not> (\<not> isSVGElement e \<and> offsetHeight e = 0)
        \<and> parentElement e = Some m
        \<and> (\<forall>a \<in> set (parentChain d k m).
              body d \<noteq> Some a \<and> isAsideEquivalent (document final ! a) = Inr False)"
  then show "set (parentChain d k m) \<subseteq> set (containerNodes (iterateDOMLog rnd d))"
    using iterateDOM_chain [of rnd d final b p e m k] by blast
qed

text \<open>
  The hypotheses of C5 on the page with two sections: the chains of the two paragraphs
  share the \<open>div\<close>, which gets one selector from the loop and one override rule.
\<close>

theorem C5_element_handled_at_most_once_witness:
  "iterateParents exampleRandom visitedTraversal (Some 3) = Inr visitedTraversal
   \<and> walkUp exampleRandom visitedTraversal (Some 3) = Inr visitedTraversal
   \<and> (\<exists>final. iterateDOM exampleRandom nestedDocument = Inr final
         \<and> containerSelectors final = map pushedText (iterateDOMLog exampleRandom nestedDocument)
         \<and> overrideCssDeclarations final
             = concat (map (ruleOf nestedDocument) (iterateDOMLog exampleRandom nestedDocument)))
   \<and> distinct (containerNodes (iterateDOMLog exampleRandom nestedDocument))
   \<and> distinct (filter (\<lambda>n. body nestedDocument \<noteq> Some n)
                 (paragraphParents (iterateDOMLog exampleRandom nestedDocument)))
   \<and> length (ruleOf nestedDocument
               (Container 3 (''div.container_777[id='' @ [apostrophe] @ ''wrap'' @ [apostrophe] @ '']'')))
       = 1
   \<and> length (ruleOf nestedDocument (Container 6 ''section.container_77777'')) = 0
   \<and> parentChain nestedDocument 1 6 = [6, 3]
   \<and> set [6, 3] \<subseteq> set (containerNodes (iterateDOMLog exampleRandom nestedDocument))"
proof -
  have s: "3 \<in> set (seenNodes visitedTraversal)"
    by (simp add: visitedTraversal_def startTraversal_def)
  obtain final where f: "iterateDOM exampleRandom nestedDocument = Inr final"
    using nested_traversal by (cases "iterateDOM exampleRandom nestedDocument") auto
  from nested_traversal f
  have na: "isAsideEquivalent (document final ! 6) = Inr False"
    "isAsideEquivalent (document final ! 3) = Inr False"
    by simp_all
  have b: "body nestedDocument = Some 2" by code_simp
  have q: "7 \<in> set (querySelectorAll nestedDocument 2 globalParagraphSelector)" by code_simp
  have e: "getElement nestedDocument 7 = Some (nestedDocument ! 7)" by code_simp
  have v: "\<not> (\<not> isSVGElement (nestedDocument ! 7) \<and> offsetHeight (nestedDocument ! 7) = 0)"
    by code_simp
  have m: "parentElement (nestedDocument ! 7) = Some 6" by code_simp
  have c: "parentChain nestedDocument 1 6 = [6, 3]" by code_simp
  have st: "display (computedStyle (nestedDocument ! 3)) = ''flex''"
    "flexDirection (computedStyle (nestedDocument ! 3)) = ''row''"
    "display (computedStyle (nestedDocument ! 6)) = ''block''"
    by code_simp+
  have c3: "Container 3 (''div.container_777[id='' @ [apostrophe] @ ''wrap'' @ [apostrophe] @ '']'')
              \<in> set (iterateDOMLog exampleRandom nestedDocument)"
    and c6: "Container 6 ''section.container_77777''
              \<in> set (iterateDOMLog exampleRandom nestedDocument)"
    unfolding nested_log by simp_all
  note T = C5_element_handled_at_most_once
             [of 3 visitedTraversal exampleRandom nestedDocument final _ _ 2 7 "nestedDocument ! 7" 6 1]
  from T [of 3 "''div.container_777[id='' @ [apostrophe] @ ''wrap'' @ [apostrophe] @ '']''"] s f c3 st
  have 1: "iterateParents exampleRandom visitedTraversal (Some 3) = Inr visitedTraversal"
    "walkUp exampleRandom visitedTraversal (Some 3) = Inr visitedTraversal"
    "containerSelectors final = map pushedText (iterateDOMLog exampleRandom nestedDocument)"
    "overrideCssDeclarations final
       = concat (map (ruleOf nestedDocument) (iterateDOMLog exampleRandom nestedDocument))"
    "distinct (containerNodes (iterateDOMLog exampleRandom nestedDocument))"
    "distinct (filter (\<lambda>n. body nestedDocument \<noteq> Some n)
                 (paragraphParents (iterateDOMLog exampleRandom nestedDocument)))"
    "length (ruleOf nestedDocument
               (Container 3 (''div.container_777[id='' @ [apostrophe] @ ''wrap'' @ [apostrophe] @ '']'')))
       = 1"
    by simp_all
  from T [of 6 "''section.container_77777''"] f c6 st
  have 2: "length (ruleOf nestedDocument (Container 6 ''section.container_77777'')) = 0"
    by simp
  from T [of 6 "''section.container_77777''"] f b q e v m na
  have 3: "set [6, 3] \<subseteq> set (containerNodes (iterateDOMLog exampleRandom nestedDocument))"
    unfolding c by simp
  from 1 2 3 f c show ?thesis by blast
qed

text \<open>
  The claim C5 as it was stated fails: in the traversal of the article page the \<open>div\<close>,
  which the chains of the two paragraphs share, gets two generated classes and two
  selectors, and it does not occur in the override rules, of which there are none.
\<close>

theorem C5_shared_parent_gets_two_selectors:
  "map_sum id (\<lambda>st. (classList (document st ! 3), containerSelectors st, overrideCssDeclarations st))
     (iterateDOM exampleRandom articleDocument)
   = Inr ([''article'', ''container_7'', ''container_77''],
          [''div.container_7[id='' @ [apostrophe] @ ''main'' @ [apostrophe] @ ''] > p'',
           ''div.container_77[id='' @ [apostrophe] @ ''main'' @ [apostrophe] @ '']'',
           ''footer.container_777 > p''],
          [])"
  by code_simp

text \<open>
  Claim C6. The resolver picks the first sample when there is one and the recorded body
  color otherwise; a picked color brighter than 230 becomes \<open>white\<close>. The result is stored
  as the original background variable, and also as the active background color variable
  exactly when the theme name is unset or \<open>auto\<close>. With the brightness of
  \<open>rgb(250,250,250)\<close> above 230 the samples \<open>["rgb(250,250,250)"]\<close> resolve to \<open>white\<close>; with
  the brightness of \<open>rgb(30,30,30)\<close> not above 230 the samples \<open>["rgb(30,30,30)"]\<close> resolve
  to \<open>rgb(30,30,30)\<close>.
\<close>

theorem C6_background_color_resolution:
  "(activeColorThemeVariable V \<noteq> originalBackgroundThemeVariable V \<longrightarrow>
      processBackgroundColors V getBrightness th samples =
        (let picked = (case samples of
                         [] \<Rightarrow> getThemeValue th (originalBackgroundThemeVariable V)
                       | first # _ \<Rightarrow> first);
             resolved = (if getBrightness picked > 230 then ''white'' else picked);
             themeName = getThemeValue th (activeColorThemeVariable V);
             th1 = th(originalBackgroundThemeVariable V \<mapsto> resolved)
         in if themeName = [] \<or> themeName = ''auto''
            then th1(backgroundColorThemeVariable V \<mapsto> resolved) else th1))
   \<and> (getBrightness ''rgb(250,250,250)'' > 230 \<longrightarrow>
        getThemeValue (processBackgroundColors V getBrightness th [''rgb(250,250,250)''])
          (originalBackgroundThemeVariable V) = ''white'')
   \<and> (\<not> getBrightness ''rgb(30,30,30)'' > 230 \<longrightarrow>
        getThemeValue (processBackgroundColors V getBrightness th [''rgb(30,30,30)''])
          (originalBackgroundThemeVariable V) = ''rgb(30,30,30)'')"
proof (intro conjI impI)
  assume "activeColorThemeVariable V \<noteq> originalBackgroundThemeVariable V"
  then show "processBackgroundColors V getBrightness th samples =
        (let picked = (case samples of
                         [] \<Rightarrow> getThemeValue th (originalBackgroundThemeVariable V)
                       | first # _ \<Rightarrow> first);
             resolved = (if getBrightness picked > 230 then ''white'' else picked);
             themeName = getThemeValue th (activeColorThemeVariable V);
             th1 = th(originalBackgroundThemeVariable V \<mapsto> resolved)
         in if themeName = [] \<or> themeName = ''auto''
            then th1(backgroundColorThemeVariable V \<mapsto> resolved) else th1)"
    by (cases samples)
       (simp_all add: processBackgroundColors_def Let_def setCssThemeVariable_def getThemeValue_def)
next
  assume "getBrightness ''rgb(250,250,250)'' > 230"
  then show "getThemeValue (processBackgroundColors V getBrightness th [''rgb(250,250,250)''])
          (originalBackgroundThemeVariable V) = ''white''"
    by (simp add: processBackgroundColors_def Let_def setCssThemeVariable_def getThemeValue_def)
next
  assume "\<not> getBrightness ''rgb(30,30,30)'' > 230"
  then show "getThemeValue (processBackgroundColors V getBrightness th [''rgb(30,30,30)''])
          (originalBackgroundThemeVariable V) = ''rgb(30,30,30)''"
    by (simp add: processBackgroundColors_def Let_def setCssThemeVariable_def getThemeValue_def)
qed

theorem C6_background_color_resolution_witness:
  "processBackgroundColors exampleVariables exampleBrightness Map.empty [''rgb(250,250,250)'']
     = [''--lindy-original-background'' \<mapsto> ''white'', ''--lindy-background-color'' \<mapsto> ''white'']
   \<and> processBackgroundColors exampleVariables exampleBrightness
         [''--lindy-active-color-theme'' \<mapsto> ''dark''] [''rgb(30,30,30)'']
       = [''--lindy-active-color-theme'' \<mapsto> ''dark'',
          ''--lindy-original-background'' \<mapsto> ''rgb(30,30,30)'']
   \<and> getThemeValue
         (processBackgroundColors exampleVariables exampleBrightness Map.empty [''rgb(250,250,250)''])
         ''--lindy-original-background'' = ''white''
   \<and> getThemeValue
         (processBackgroundColors exampleVariables exampleBrightness Map.empty [''rgb(30,30,30)''])
         ''--lindy-original-background'' = ''rgb(30,30,30)''"
  using C6_background_color_resolution
          [of exampleVariables exampleBrightness Map.empty "[''rgb(250,250,250)'']"]
        C6_background_color_resolution
          [of exampleVariables exampleBrightness "[''--lindy-active-color-theme'' \<mapsto> ''dark'']"
              "[''rgb(30,30,30)'']"]
  by (simp add: exampleVariables_def exampleBrightness_def getThemeValue_def Let_def)

text \<open>
  Claim C7. A document without \<open>p\<close>, \<open>font\<close> and \<open>pre\<close> elements is meant to be walked from
  its \<open>div\<close> and \<open>span\<close> elements. On the page with a \<open>div\<close> holding a \<open>span\<close> the paragraph
  query is empty, the query \<open>div, span\<close> would select both elements, and the traversal
  ends in its start state: the test \<open>!paragraphs\<close> is false for the empty list too.
\<close>

theorem C7_fallback_never_taken:
  "querySelectorAll divDocument 2 globalParagraphSelector = []
   \<and> querySelectorAll divDocument 2 [TypeSel ''div'', TypeSel ''span''] = [3, 4]
   \<and> body divDocument = Some 2
   \<and> iterateDOM exampleRandom divDocument = Inr (startTraversal divDocument)"
  by code_simp

text \<open>
  Claim C8. For a paragraph whose chain of parent elements reaches the body, the
  traversal is meant to run to completion. On the page with a paragraph in
  \<open>svg > foreignObject\<close> the paragraph query selects the paragraph, which is visible and
  whose parent chain reaches the body within four steps. For the \<open>foreignObject\<close>
  element \<open>_isAsideEquivalent\<close> calls \<open>node.className.toLowerCase()\<close>; the \<open>className\<close> of
  an SVG element is no string, and the \<open>TypeError\<close> leaves \<open>iterateParents\<close> and
  \<open>iterateDOM\<close>.
\<close>

theorem C8_svg_ancestor_raises_TypeError:
  "body svgDocument = Some 2
   \<and> querySelectorAll svgDocument 2 globalParagraphSelector = [6]
   \<and> ancestorWithin 4 svgDocument (Element 2) 6
   \<and> offsetHeight (svgDocument ! 6) = 20
   \<and> isAsideEquivalent (svgDocument ! 5) = Inl TypeError
   \<and> iterateParents exampleRandom (startTraversal svgDocument) (parentElement (svgDocument ! 6))
       = Inl TypeError
   \<and> iterateDOM exampleRandom svgDocument = Inl TypeError"
  by code_simp

text \<open>
  Claim C9. A container whose computed style is \<open>display: flex\<close> with
  \<open>flex-direction: row\<close> gets exactly the one rule \<open><selector> { display: block; }\<close>;
  for the selector \<open>div.container_123\<close> this is \<open>div.container_123 { display: block; }\<close>.
  A flex container with another direction, and a display value other than \<open>flex\<close> and
  \<open>grid\<close>, get no rule at all.
\<close>

theorem C9_flex_row_override:
  "(display st = ''flex'' \<and> flexDirection st = ''row'' \<longrightarrow>
      getNodeOverrideStyles sel st = [sel @ '' { display: block; }''])
   \<and> (display st = ''flex'' \<and> flexDirection st = ''row'' \<longrightarrow>
      getNodeOverrideStyles ''div.container_123'' st = [''div.container_123 { display: block; }''])
   \<and> (display st = ''flex'' \<and> flexDirection st \<noteq> ''row'' \<longrightarrow> getNodeOverrideStyles sel st = [])
   \<and> (display st \<noteq> ''flex'' \<and> display st \<noteq> ''grid'' \<longrightarrow> getNodeOverrideStyles sel st = [])"
  by (simp add: getNodeOverrideStyles_def)

theorem C9_flex_row_override_witness:
  "getNodeOverrideStyles ''div.container_123''
      \<lparr>display = ''flex'', flexDirection = ''row'', backgroundColor = ''rgba(0, 0, 0, 0)''\<rparr>
     = [''div.container_123 { display: block; }'']
   \<and> getNodeOverrideStyles ''div.container_123''
      \<lparr>display = ''flex'', flexDirection = ''column'', backgroundColor = ''rgba(0, 0, 0, 0)''\<rparr>
     = []
   \<and> getNodeOverrideStyles ''div.container_123''
      \<lparr>display = ''block'', flexDirection = ''row'', backgroundColor = ''rgba(0, 0, 0, 0)''\<rparr>
     = []"
  using C9_flex_row_override
          [of "\<lparr>display = ''flex'', flexDirection = ''row'', backgroundColor = ''rgba(0, 0, 0, 0)''\<rparr>"
              "''div.container_123''"]
        C9_flex_row_override
          [of "\<lparr>display = ''flex'', flexDirection = ''column'', backgroundColor = ''rgba(0, 0, 0, 0)''\<rparr>"
              "''div.container_123''"]
        C9_flex_row_override
          [of "\<lparr>display = ''block'', flexDirection = ''row'', backgroundColor = ''rgba(0, 0, 0, 0)''\<rparr>"
              "''div.container_123''"]
  by simp

text \<open>
  Claim C10. A declaration whose value does not begin with \<open>url(\<close> is returned as it is by
  the URL-rewriting listener, whatever \<open>url(...)\<close> references the value holds further on.
\<close>

theorem C10_value_not_starting_with_url_unchanged:
  "\<not> prefix ''url('' (decl_value decl) \<Longrightarrow>
     urlRewritePlugin_Declaration URL_href baseUrl decl = Inr decl"
  by (simp add: urlRewritePlugin_Declaration_def)

theorem C10_value_not_starting_with_url_unchanged_witness:
  "\<not> prefix ''url('' ''#fff url(a.png)''
   \<and> urlRewritePlugin_Declaration exampleURL ''https://site.com/css/a.css''
         \<lparr>alreadyProcessed = False, decl_prop = ''background'',
          decl_value = ''#fff url(a.png)'', important = False\<rparr>
       = Inr \<lparr>alreadyProcessed = False, decl_prop = ''background'',
              decl_value = ''#fff url(a.png)'', important = False\<rparr>"
  using C10_value_not_starting_with_url_unchanged
          [of "\<lparr>alreadyProcessed = False, decl_prop = ''background'',
                decl_value = ''#fff url(a.png)'', important = False\<rparr>"
              exampleURL "''https://site.com/css/a.css''"]
  by simp

end
